theory Spec2Isabelle
  imports Complex_Main "HOL-Library.Multiset" "HOL-Library.Word"
begin

section \<open>Exceptions and floating-point arithmetic\<close>

text \<open>
  The program throws two kinds of exception, each with a fixed message:
  \<^verbatim>\<open>std::logic_error("mismatched dvec dimensions")\<close> from \<^verbatim>\<open>dvec::assert_compatible\<close> and
  \<^verbatim>\<open>std::runtime_error("mismatched input vector dimensions")\<close> from \<^verbatim>\<open>ingest_dvecs\<close>.
  A function that may throw returns \<open>error + 'a\<close>, with \<open>Inl\<close> for the exception.
\<close>

datatype error = logic_error string | runtime_error string

text \<open>
  The elements of a \<^verbatim>\<open>dvec\<close> are C++ \<^verbatim>\<open>double\<close>s. Their arithmetic (rounding, infinities,
  not-a-number) is not part of the program, so the element type is a type variable \<open>'d\<close> and the
  operations the program applies to doubles are the fields of a record that every function takes
  as its first argument: the literal \<^verbatim>\<open>0.0\<close>, \<^verbatim>\<open>+\<close>, \<^verbatim>\<open>*\<close>, \<^verbatim>\<open>/\<close>, \<^verbatim>\<open>std::sqrt\<close>, \<^verbatim>\<open>std::acos\<close>,
  \<^verbatim>\<open><\<close>, and the \<^verbatim>\<open><=\<close> with which the test of \<^verbatim>\<open>theta_sort\<close> checks the order. Whatever is proved
  for every such record holds for the machine's arithmetic; where a property of the arithmetic
  is needed it is a hypothesis of the theorem, or the theorem is about double precision.
\<close>

record 'd fpu =
  fzero :: 'd
  fadd :: "'d \<Rightarrow> 'd \<Rightarrow> 'd"
  fmul :: "'d \<Rightarrow> 'd \<Rightarrow> 'd"
  fdiv :: "'d \<Rightarrow> 'd \<Rightarrow> 'd"
  fsqrt :: "'d \<Rightarrow> 'd"
  facos :: "'d \<Rightarrow> 'd"
  fless :: "'d \<Rightarrow> 'd \<Rightarrow> bool"
  fle :: "'d \<Rightarrow> 'd \<Rightarrow> bool"

text \<open>
  Exact arithmetic on the reals, without rounding: the instance that says what \<^verbatim>\<open>dot\<close> and
  \<^verbatim>\<open>theta\<close> compute in the mathematical sense. It is only applied to vectors of non-zero norm
  (HOL's \<open>x / 0\<close> is \<open>0\<close>, the machine's is an infinity or not-a-number).
\<close>

definition exact :: "real fpu" where
  "exact = \<lparr>fzero = 0, fadd = (+), fmul = (*), fdiv = (/), fsqrt = sqrt, facos = arccos,
            fless = (<), fle = (\<le>)\<rparr>"

section \<open>IEEE 754 double precision\<close>

text \<open>
  The arithmetic the program runs on: a \<^verbatim>\<open>double\<close> is a finite number, an infinity
  (\<open>Infinity True\<close> is \<open>+\<infinity>\<close>) or not-a-number. Every operation returns the exact result
  rounded to the nearest number with a 53-bit significand, ties to even (\<open>round64\<close>: the spacing of the doubles around
  \<open>x\<close> is \<open>2\<close> to the power \<open>\<lfloor>log\<^sub>2 |x|\<rfloor> - 52\<close>, with the exponent at least \<open>-1022\<close>; a result of
  magnitude \<open>2\<^sup>1\<^sup>0\<^sup>2\<^sup>4\<close> or more overflows to an infinity). The sign of a zero is not modelled;
  it shows only when a number is divided by zero, and the program divides by a product of square
  roots, which is never \<^verbatim>\<open>-0.0\<close>. \<^verbatim>\<open>std::acos\<close> returns not-a-number outside \<open>[-1, 1]\<close>; inside,
  the library's result is taken to be the correctly rounded one.
\<close>

datatype double = Num real | Infinity bool | NaN

definition rne :: "real \<Rightarrow> int" where
  "rne x =
     (let f = \<lfloor>x\<rfloor> in
      if x - of_int f < 1 / 2 then f
      else if 1 / 2 < x - of_int f then f + 1
      else if even f then f else f + 1)"

definition round64 :: "real \<Rightarrow> double" where
  "round64 x =
     (if x = 0 then Num 0
      else
        let q = 2 powr (of_int (max \<lfloor>log 2 \<bar>x\<bar>\<rfloor> (- 1022)) - 52);
            y = of_int (rne (x / q)) * q
        in if 2 ^ 1024 \<le> \<bar>y\<bar> then Infinity (0 < x) else Num y)"

fun add64 :: "double \<Rightarrow> double \<Rightarrow> double" where
  "add64 (Num x) (Num y) = round64 (x + y)"
| "add64 NaN _ = NaN"
| "add64 _ NaN = NaN"
| "add64 (Infinity s) (Infinity t) = (if s = t then Infinity s else NaN)"
| "add64 (Infinity s) (Num y) = Infinity s"
| "add64 (Num x) (Infinity t) = Infinity t"

fun mul64 :: "double \<Rightarrow> double \<Rightarrow> double" where
  "mul64 (Num x) (Num y) = round64 (x * y)"
| "mul64 NaN _ = NaN"
| "mul64 _ NaN = NaN"
| "mul64 (Infinity s) (Infinity t) = Infinity (s = t)"
| "mul64 (Infinity s) (Num y) = (if y = 0 then NaN else Infinity (s = (0 < y)))"
| "mul64 (Num x) (Infinity t) = (if x = 0 then NaN else Infinity ((0 < x) = t))"

fun div64 :: "double \<Rightarrow> double \<Rightarrow> double" where
  "div64 (Num x) (Num y) =
     (if y = 0 then (if x = 0 then NaN else Infinity (0 < x)) else round64 (x / y))"
| "div64 NaN _ = NaN"
| "div64 _ NaN = NaN"
| "div64 (Infinity s) (Infinity t) = NaN"
| "div64 (Infinity s) (Num y) = Infinity (s = (0 \<le> y))"
| "div64 (Num x) (Infinity t) = Num 0"

fun sqrt64 :: "double \<Rightarrow> double" where
  "sqrt64 (Num x) = (if x < 0 then NaN else round64 (sqrt x))"
| "sqrt64 (Infinity s) = (if s then Infinity True else NaN)"
| "sqrt64 NaN = NaN"

fun acos64 :: "double \<Rightarrow> double" where
  "acos64 (Num x) = (if \<bar>x\<bar> \<le> 1 then round64 (arccos x) else NaN)"
| "acos64 (Infinity s) = NaN"
| "acos64 NaN = NaN"

fun less64 :: "double \<Rightarrow> double \<Rightarrow> bool" where
  "less64 (Num x) (Num y) = (x < y)"
| "less64 NaN _ = False"
| "less64 _ NaN = False"
| "less64 (Infinity s) (Infinity t) = (\<not> s \<and> t)"
| "less64 (Infinity s) (Num y) = (\<not> s)"
| "less64 (Num x) (Infinity t) = t"

fun le64 :: "double \<Rightarrow> double \<Rightarrow> bool" where
  "le64 (Num x) (Num y) = (x \<le> y)"
| "le64 NaN _ = False"
| "le64 _ NaN = False"
| "le64 (Infinity s) (Infinity t) = (s \<longrightarrow> t)"
| "le64 (Infinity s) (Num y) = (\<not> s)"
| "le64 (Num x) (Infinity t) = t"

text \<open>
  \<^verbatim>\<open>==\<close> on doubles: two numbers are equal when they are the same number, an infinity is equal
  to the infinity of the same sign, and not-a-number is equal to nothing, itself included.
\<close>

fun eq64 :: "double \<Rightarrow> double \<Rightarrow> bool" where
  "eq64 (Num x) (Num y) = (x = y)"
| "eq64 (Infinity s) (Infinity t) = (s = t)"
| "eq64 _ _ = False"

definition binary64 :: "double fpu" where
  "binary64 = \<lparr>fzero = Num 0, fadd = add64, fmul = mul64, fdiv = div64, fsqrt = sqrt64,
               facos = acos64, fless = less64, fle = le64\<rparr>"

section \<open>The vector type \<^verbatim>\<open>dvec\<close>\<close>

text \<open>\<^verbatim>\<open>struct dvec : public vector<double>\<close>: a vector is the list of its elements.\<close>

type_synonym 'd dvec = "'d list"

definition assert_compatible :: "'d dvec \<Rightarrow> 'd dvec \<Rightarrow> error + unit" where
  "assert_compatible a b =
     (if length a \<noteq> length b then Inl (logic_error ''mismatched dvec dimensions'') else Inr ())"

text \<open>
  \<^verbatim>\<open>dot\<close> has two loops, chosen by the preprocessor. With \<^verbatim>\<open>HAVEZIP\<close>, the build of a C++23
  library, the loop runs over \<^verbatim>\<open>std::views::zip(a, b)\<close> and adds each product to the accumulator,
  which starts at \<^verbatim>\<open>0.0\<close>. This is the loop of \<open>dot\<close> below; \<open>norm_dvec\<close> and \<open>theta\<close> call it.
\<close>

fun dot_loop :: "'d fpu \<Rightarrow> ('d \<times> 'd) list \<Rightarrow> 'd \<Rightarrow> 'd" where
  "dot_loop fp [] acc = acc"
| "dot_loop fp ((x, y) # zs) acc = dot_loop fp zs (fadd fp acc (fmul fp x y))"

definition dot :: "'d fpu \<Rightarrow> 'd dvec \<Rightarrow> 'd dvec \<Rightarrow> error + 'd" where
  "dot fp a b =
     (case assert_compatible a b of
        Inl e \<Rightarrow> Inl e
      | Inr _ \<Rightarrow> Inr (dot_loop fp (zip a b) (fzero fp)))"

text \<open>
  Without \<^verbatim>\<open>HAVEZIP\<close> the loop is \<^verbatim>\<open>for (auto i = 0u; i < a.size(); ++i) acc += a[i] * b[i]\<close>.
  The counter is an \<^verbatim>\<open>unsigned int\<close>, 32 bits wide, and \<^verbatim>\<open>++i\<close> wraps around, so the loop need not
  end: the model returns \<open>None\<close> when it does not. This is the loop of \<open>dot_index\<close>;
  \<open>norm_index\<close> and \<open>theta_index\<close> call it.
\<close>

partial_function (option) dot_index_loop ::
  "'d fpu \<Rightarrow> 'd dvec \<Rightarrow> 'd dvec \<Rightarrow> 32 word \<Rightarrow> 'd \<Rightarrow> 'd option" where
  "dot_index_loop fp a b i acc =
     (if unat i < length a
      then dot_index_loop fp a b (i + 1) (fadd fp acc (fmul fp (a ! unat i) (b ! unat i)))
      else Some acc)"

definition dot_index :: "'d fpu \<Rightarrow> 'd dvec \<Rightarrow> 'd dvec \<Rightarrow> (error + 'd) option" where
  "dot_index fp a b =
     (case assert_compatible a b of
        Inl e \<Rightarrow> Some (Inl e)
      | Inr _ \<Rightarrow> map_option Inr (dot_index_loop fp a b 0 (fzero fp)))"

text \<open>\<^verbatim>\<open>dvec::norm\<close> is \<^verbatim>\<open>std::sqrt(dot(*this, *this))\<close>; an exception of \<^verbatim>\<open>dot\<close> would propagate.\<close>

definition norm_dvec :: "'d fpu \<Rightarrow> 'd dvec \<Rightarrow> error + 'd" where
  "norm_dvec fp v = (case dot fp v v of Inl e \<Rightarrow> Inl e | Inr d \<Rightarrow> Inr (fsqrt fp d))"

text \<open>\<^verbatim>\<open>theta\<close>: the check, then \<^verbatim>\<open>std::acos(dot(a, b) / (a.norm() * b.norm()))\<close>.\<close>

definition theta :: "'d fpu \<Rightarrow> 'd dvec \<Rightarrow> 'd dvec \<Rightarrow> error + 'd" where
  "theta fp a b =
     (case assert_compatible a b of
        Inl e \<Rightarrow> Inl e
      | Inr _ \<Rightarrow>
          (case dot fp a b of
             Inl e \<Rightarrow> Inl e
           | Inr d \<Rightarrow>
               (case norm_dvec fp a of
                  Inl e \<Rightarrow> Inl e
                | Inr na \<Rightarrow>
                    (case norm_dvec fp b of
                       Inl e \<Rightarrow> Inl e
                     | Inr nb \<Rightarrow> Inr (facos fp (fdiv fp d (fmul fp na nb)))))))"

text \<open>
  Without \<^verbatim>\<open>HAVEZIP\<close>, \<^verbatim>\<open>norm\<close> and \<^verbatim>\<open>theta\<close> call the \<^verbatim>\<open>dot\<close> of the counting loop, and do not
  return when it does not.
\<close>

definition norm_index :: "'d fpu \<Rightarrow> 'd dvec \<Rightarrow> (error + 'd) option" where
  "norm_index fp v =
     (case dot_index fp v v of
        None \<Rightarrow> None
      | Some (Inl e) \<Rightarrow> Some (Inl e)
      | Some (Inr d) \<Rightarrow> Some (Inr (fsqrt fp d)))"

definition theta_index :: "'d fpu \<Rightarrow> 'd dvec \<Rightarrow> 'd dvec \<Rightarrow> (error + 'd) option" where
  "theta_index fp a b =
     (case assert_compatible a b of
        Inl e \<Rightarrow> Some (Inl e)
      | Inr _ \<Rightarrow>
          (case dot_index fp a b of
             None \<Rightarrow> None
           | Some (Inl e) \<Rightarrow> Some (Inl e)
           | Some (Inr d) \<Rightarrow>
               (case norm_index fp a of
                  None \<Rightarrow> None
                | Some (Inl e) \<Rightarrow> Some (Inl e)
                | Some (Inr na) \<Rightarrow>
                    (case norm_index fp b of
                       None \<Rightarrow> None
                     | Some (Inl e) \<Rightarrow> Some (Inl e)
                     | Some (Inr nb) \<Rightarrow> Some (Inr (facos fp (fdiv fp d (fmul fp na nb))))))))"

text \<open>
  The comparison \<^verbatim>\<open>theta(a, b) == theta(b, a)\<close> of two results of \<^verbatim>\<open>theta\<close>, as C++ evaluates
  it: both calls return, and the two doubles are \<^verbatim>\<open>==\<close>.
\<close>

definition same_angle :: "error + double \<Rightarrow> error + double \<Rightarrow> bool" where
  "same_angle r s =
     (case r of Inl _ \<Rightarrow> False | Inr x \<Rightarrow> (case s of Inl _ \<Rightarrow> False | Inr y \<Rightarrow> eq64 x y))"

section \<open>Pair enumeration\<close>

text \<open>
  \<^verbatim>\<open>pairwise_elts\<close> walks two iterators over \<^verbatim>\<open>vecs\<close>. An iterator is modelled by the part of
  the vector from its position to the end: \<^verbatim>\<open>it != end\<close> is a non-empty rest, \<^verbatim>\<open>*it\<close> its head,
  \<^verbatim>\<open>it + 1\<close> its tail. The inner loop appends \<^verbatim>\<open>{*it, *it2}\<close> for every \<^verbatim>\<open>it2\<close> from \<^verbatim>\<open>it + 1\<close> on.
\<close>

fun inner_loop :: "'a \<Rightarrow> 'a list \<Rightarrow> ('a \<times> 'a) list \<Rightarrow> ('a \<times> 'a) list" where
  "inner_loop x [] pairs = pairs"
| "inner_loop x (y # it2) pairs = inner_loop x it2 (pairs @ [(x, y)])"

fun outer_loop :: "'a list \<Rightarrow> ('a \<times> 'a) list \<Rightarrow> ('a \<times> 'a) list" where
  "outer_loop [] pairs = pairs"
| "outer_loop (x # it) pairs = outer_loop it (inner_loop x it pairs)"

definition pairwise_elts :: "'a list \<Rightarrow> ('a \<times> 'a) list" where
  "pairwise_elts vecs = outer_loop vecs []"

text \<open>
  The enumeration the specification describes: the index pairs \<open>(i, j)\<close> with \<open>i < j < N\<close>, for
  \<open>i = 0\<close> every \<open>j > 0\<close> in increasing order, then \<open>i = 1\<close>, and so on.
\<close>

definition index_pairs :: "nat \<Rightarrow> (nat \<times> nat) list" where
  "index_pairs N = concat (map (\<lambda>i. map (Pair i) [Suc i..<N]) [0..<N])"

definition lex_less :: "nat \<times> nat \<Rightarrow> nat \<times> nat \<Rightarrow> bool" where
  "lex_less p q = (fst p < fst q \<or> (fst p = fst q \<and> snd p < snd q))"

section \<open>The angle sort\<close>

text \<open>
  The comparator that \<^verbatim>\<open>theta_sort\<close> hands to \<^verbatim>\<open>std::sort\<close>:
  \<^verbatim>\<open>theta(x.first, x.second) < theta(y.first, y.second)\<close>. Either call of \<^verbatim>\<open>theta\<close> may throw, and
  both throw the same exception, so the order in which the operands are evaluated does not show.
\<close>

definition theta_less ::
  "'d fpu \<Rightarrow> 'd dvec \<times> 'd dvec \<Rightarrow> 'd dvec \<times> 'd dvec \<Rightarrow> error + bool" where
  "theta_less fp x y =
     (case theta fp (fst x) (snd x) of
        Inl e \<Rightarrow> Inl e
      | Inr tx \<Rightarrow>
          (case theta fp (fst y) (snd y) of
             Inl e \<Rightarrow> Inl e
           | Inr ty \<Rightarrow> Inr (fless fp tx ty)))"

text \<open>
  \<^verbatim>\<open>std::sort\<close> belongs to the C++ library, not to the program: it is an argument \<open>srt\<close> of the
  model, a function of a comparator that may throw and of a sequence. What \<^verbatim>\<open>theta_sort\<close>
  returns is what \<open>srt\<close> returns. For a \<^verbatim>\<open>std::sort\<close> of which only the promises of the C++
  standard are known (a \<open>sorter\<close>) that is the sorted sequence or the exception that escaped;
  for the \<^verbatim>\<open>std::sort\<close> of the GNU library, \<open>std_sort\<close> below, it is an \<open>outcome\<close>.
\<close>

type_synonym 'a sorter = "('a \<Rightarrow> 'a \<Rightarrow> error + bool) \<Rightarrow> 'a list \<Rightarrow> error + 'a list"

definition theta_sort ::
  "'d fpu \<Rightarrow>
   (('d dvec \<times> 'd dvec \<Rightarrow> 'd dvec \<times> 'd dvec \<Rightarrow> error + bool) \<Rightarrow>
    ('d dvec \<times> 'd dvec) list \<Rightarrow> 'r) \<Rightarrow>
   'd dvec list \<Rightarrow> 'r"
  where
  "theta_sort fp srt vecs = srt (theta_less fp) (pairwise_elts vecs)"

text \<open>
  What the C++ standard promises of \<^verbatim>\<open>std::sort\<close>. The comparator has to induce a strict weak
  ordering on the elements: it is irreflexive and transitive, and so is the equivalence
  "neither is less than the other". Then the call returns a reordering of its input in which
  no element is less than an element before it. Nothing is promised about the order of
  equivalent elements, and nothing at all when the comparator is not a strict weak ordering.
\<close>

definition strict_weak_order_on :: "'a set \<Rightarrow> ('a \<Rightarrow> 'a \<Rightarrow> bool) \<Rightarrow> bool" where
  "strict_weak_order_on A lt \<longleftrightarrow>
     (\<forall>x\<in>A. \<not> lt x x) \<and>
     (\<forall>x\<in>A. \<forall>y\<in>A. \<forall>z\<in>A. lt x y \<longrightarrow> lt y z \<longrightarrow> lt x z) \<and>
     (\<forall>x\<in>A. \<forall>y\<in>A. \<forall>z\<in>A.
        \<not> lt x y \<and> \<not> lt y x \<longrightarrow> \<not> lt y z \<and> \<not> lt z y \<longrightarrow> \<not> lt x z \<and> \<not> lt z x)"

definition meets_sort_contract :: "'a sorter \<Rightarrow> bool" where
  "meets_sort_contract srt \<longleftrightarrow>
     (\<forall>cmp xs.
        (\<forall>x\<in>set xs. \<forall>y\<in>set xs. \<not> isl (cmp x y)) \<longrightarrow>
        strict_weak_order_on (set xs) (\<lambda>x y. cmp x y = Inr True) \<longrightarrow>
        (\<exists>ys. srt cmp xs = Inr ys \<and> mset ys = mset xs \<and>
              sorted_wrt (\<lambda>x y. cmp y x = Inr False) ys))"

text \<open>The precondition of claim C1: all vectors of the input have the same size.\<close>

definition same_dimension :: "'d dvec list \<Rightarrow> bool" where
  "same_dimension vecs \<longleftrightarrow> (\<forall>v\<in>set vecs. \<forall>w\<in>set vecs. length v = length w)"

text \<open>The angles of the pairs that \<^verbatim>\<open>theta_sort\<close> compares.\<close>

definition angles :: "'d fpu \<Rightarrow> 'd dvec list \<Rightarrow> 'd set" where
  "angles fp vecs = {t. \<exists>p\<in>set (pairwise_elts vecs). theta fp (fst p) (snd p) = Inr t}"

text \<open>
  The angles of a sequence of pairs are non-decreasing from the first pair to the last: each
  pair and the next have angles, and the first of the two is \<^verbatim>\<open><=\<close> the second. This is what the
  test of \<^verbatim>\<open>theta_sort\<close> checks (\<^verbatim>\<open>CHECK(last <= curr)\<close>).
\<close>

definition nondecreasing_angles :: "'d fpu \<Rightarrow> ('d dvec \<times> 'd dvec) list \<Rightarrow> bool" where
  "nondecreasing_angles fp ys \<longleftrightarrow>
     successively (\<lambda>p q. \<exists>tp tq. theta fp (fst p) (snd p) = Inr tp \<and>
                                theta fp (fst q) (snd q) = Inr tq \<and> fle fp tp tq) ys"

text \<open>
  The angles of an input are ordered: on them \<^verbatim>\<open><\<close> is a strict weak ordering, as \<^verbatim>\<open>std::sort\<close>
  requires, and \<^verbatim>\<open>a <= b\<close> holds exactly when \<^verbatim>\<open>b < a\<close> does not. For doubles this says that none
  of the angles is not-a-number.
\<close>

definition ordered_angles :: "'d fpu \<Rightarrow> 'd dvec list \<Rightarrow> bool" where
  "ordered_angles fp vecs \<longleftrightarrow>
     strict_weak_order_on (angles fp vecs) (fless fp) \<and>
     (\<forall>a\<in>angles fp vecs. \<forall>b\<in>angles fp vecs. fle fp a b = (\<not> fless fp b a))"

text \<open>
  Stability as the specification words it: pairs of equal angle keep their relative order, that
  is, for every angle \<open>t\<close> the pairs of angle \<open>t\<close> appear in \<open>ys\<close> in the order they have in \<open>xs\<close>.
\<close>

definition keeps_tie_order ::
  "'d fpu \<Rightarrow> ('d dvec \<times> 'd dvec) list \<Rightarrow> ('d dvec \<times> 'd dvec) list \<Rightarrow> bool" where
  "keeps_tie_order fp xs ys \<longleftrightarrow>
     (\<forall>t. filter (\<lambda>p. theta fp (fst p) (snd p) = Inr t) ys =
          filter (\<lambda>p. theta fp (fst p) (snd p) = Inr t) xs)"

text \<open>
  One sorting routine that meets the contract, for evaluating \<^verbatim>\<open>theta_sort\<close> on concrete inputs:
  insertion sort, each element going in front of the first element it is less than.
\<close>

fun insert_sorted :: "('a \<Rightarrow> 'a \<Rightarrow> error + bool) \<Rightarrow> 'a \<Rightarrow> 'a list \<Rightarrow> error + 'a list" where
  "insert_sorted cmp x [] = Inr [x]"
| "insert_sorted cmp x (y # ys) =
     (case cmp x y of
        Inl e \<Rightarrow> Inl e
      | Inr True \<Rightarrow> Inr (x # y # ys)
      | Inr False \<Rightarrow> (case insert_sorted cmp x ys of Inl e \<Rightarrow> Inl e | Inr zs \<Rightarrow> Inr (y # zs)))"

fun insertion_sort :: "'a sorter" where
  "insertion_sort cmp [] = Inr []"
| "insertion_sort cmp (x # xs) =
     (case insertion_sort cmp xs of Inl e \<Rightarrow> Inl e | Inr ys \<Rightarrow> insert_sorted cmp x ys)"

section \<open>\<^verbatim>\<open>std::sort\<close> in the GNU C++ library\<close>

text \<open>
  The program is written for GCC (its source remarks on what "gcc doesnt support" yet), and the
  order in which \<^verbatim>\<open>theta_sort\<close> returns pairs of equal angle is decided by the \<^verbatim>\<open>std::sort\<close> of
  GCC's library, libstdc++ (\<^verbatim>\<open>bits/stl_algo.h\<close> and \<^verbatim>\<open>bits/stl_heap.h\<close>; the library is not
  part of the repository). It is an introsort: while a range has more than 16 elements it is
  partitioned around the median of three of its elements; a range that is still longer after
  \<open>2 * \<lfloor>log\<^sub>2 n\<rfloor>\<close> partitions is sorted as a heap; and one insertion sort over the whole
  sequence comes last. So a sequence of at most 16 elements is sorted by insertion alone.

  The functions below follow the library, one for each of its functions or loops, under the
  library's names with \<open>std\<close> for the leading underscores. The sequence is the list of its
  elements, an iterator is an index into it (\<open>lst\<close> stands for \<^verbatim>\<open>__last\<close>, \<open>cutp\<close> for \<^verbatim>\<open>__cut\<close>),
  and moving an element is copying it: a slot that has been moved from is written before it is
  read again. A call returns the sequence, or throws the exception that the comparator threw, or
  has undefined behaviour: the loops the library calls unguarded leave it to the comparator to
  stop them, and when it does not they step over an end of the sequence.
\<close>

datatype 'a outcome = Returns 'a | Throws error | Undefined

text \<open>\<^verbatim>\<open>std::__lg(n)\<close>, the position of the highest bit of \<open>n\<close>, and \<^verbatim>\<open>std::iter_swap\<close>.\<close>

function std_lg :: "nat \<Rightarrow> nat" where
  "std_lg n = (if n < 2 then 0 else Suc (std_lg (n div 2)))"
  by pat_completeness auto
termination
  by (relation "measure id") auto

definition iter_swap :: "'a list \<Rightarrow> nat \<Rightarrow> nat \<Rightarrow> 'a list" where
  "iter_swap xs i j = xs[i := xs ! j, j := xs ! i]"

text \<open>
  The heap sort of \<^verbatim>\<open>bits/stl_heap.h\<close>, on the range that starts at \<open>first\<close>; the indices
  \<open>holeIndex\<close>, \<open>topIndex\<close>, \<open>secondChild\<close> and \<open>parent\<close> count from there. In
  \<^verbatim>\<open>__adjust_heap\<close> the loop keeps \<open>holeIndex\<close> and \<open>secondChild\<close> equal from one iteration to
  the next, so it is a loop over \<open>holeIndex\<close>; the library's \<open>(len - 2) / 2\<close> is a signed
  division, which differs from the one on natural numbers only for \<open>len < 2\<close>, hence the
  condition \<open>2 \<le> len\<close>.
\<close>

function std_push_heap ::
  "('a \<Rightarrow> 'a \<Rightarrow> error + bool) \<Rightarrow> nat \<Rightarrow> nat \<Rightarrow> nat \<Rightarrow> 'a \<Rightarrow> 'a list \<Rightarrow> 'a list outcome"
  where
  "std_push_heap cmp first holeIndex topIndex val xs =
     (if topIndex < holeIndex
      then (case cmp (xs ! (first + (holeIndex - 1) div 2)) val of
              Inl e \<Rightarrow> Throws e
            | Inr True \<Rightarrow>
                std_push_heap cmp first ((holeIndex - 1) div 2) topIndex val
                  (xs[first + holeIndex := xs ! (first + (holeIndex - 1) div 2)])
            | Inr False \<Rightarrow> Returns (xs[first + holeIndex := val]))
      else Returns (xs[first + holeIndex := val]))"
  by pat_completeness auto
termination
  by (relation "measure (\<lambda>(cmp, first, holeIndex, topIndex, val, xs). holeIndex)") auto

function std_adjust_heap_loop ::
  "('a \<Rightarrow> 'a \<Rightarrow> error + bool) \<Rightarrow> nat \<Rightarrow> nat \<Rightarrow> nat \<Rightarrow> 'a list \<Rightarrow> (nat \<times> 'a list) outcome"
  where
  "std_adjust_heap_loop cmp first holeIndex len xs =
     (if holeIndex < (len - 1) div 2
      then (case cmp (xs ! (first + 2 * (holeIndex + 1)))
                     (xs ! (first + (2 * (holeIndex + 1) - 1))) of
              Inl e \<Rightarrow> Throws e
            | Inr smaller \<Rightarrow>
                (let secondChild =
                       (if smaller then 2 * (holeIndex + 1) - 1 else 2 * (holeIndex + 1))
                 in std_adjust_heap_loop cmp first secondChild len
                      (xs[first + holeIndex := xs ! (first + secondChild)])))
      else Returns (holeIndex, xs))"
  by pat_completeness auto
termination
  by (relation "measure (\<lambda>(cmp, first, holeIndex, len, xs). len - holeIndex)") auto

definition std_adjust_heap ::
  "('a \<Rightarrow> 'a \<Rightarrow> error + bool) \<Rightarrow> nat \<Rightarrow> nat \<Rightarrow> nat \<Rightarrow> 'a \<Rightarrow> 'a list \<Rightarrow> 'a list outcome"
  where
  "std_adjust_heap cmp first holeIndex len val xs =
     (case std_adjust_heap_loop cmp first holeIndex len xs of
        Throws e \<Rightarrow> Throws e
      | Undefined \<Rightarrow> Undefined
      | Returns (secondChild, xs1) \<Rightarrow>
          if even len \<and> 2 \<le> len \<and> secondChild = (len - 2) div 2
          then std_push_heap cmp first (2 * (secondChild + 1) - 1) holeIndex val
                 (xs1[first + secondChild := xs1 ! (first + (2 * (secondChild + 1) - 1))])
          else std_push_heap cmp first secondChild holeIndex val xs1)"

definition std_pop_heap ::
  "('a \<Rightarrow> 'a \<Rightarrow> error + bool) \<Rightarrow> nat \<Rightarrow> nat \<Rightarrow> nat \<Rightarrow> 'a list \<Rightarrow> 'a list outcome" where
  "std_pop_heap cmp first lst result xs =
     std_adjust_heap cmp first 0 (lst - first) (xs ! result) (xs[result := xs ! first])"

function std_make_heap_loop ::
  "('a \<Rightarrow> 'a \<Rightarrow> error + bool) \<Rightarrow> nat \<Rightarrow> nat \<Rightarrow> nat \<Rightarrow> 'a list \<Rightarrow> 'a list outcome" where
  "std_make_heap_loop cmp first len parent xs =
     (case std_adjust_heap cmp first parent len (xs ! (first + parent)) xs of
        Throws e \<Rightarrow> Throws e
      | Undefined \<Rightarrow> Undefined
      | Returns xs1 \<Rightarrow>
          if parent = 0 then Returns xs1 else std_make_heap_loop cmp first len (parent - 1) xs1)"
  by pat_completeness auto
termination
  by (relation "measure (\<lambda>(cmp, first, len, parent, xs). parent)") auto

definition std_make_heap ::
  "('a \<Rightarrow> 'a \<Rightarrow> error + bool) \<Rightarrow> nat \<Rightarrow> nat \<Rightarrow> 'a list \<Rightarrow> 'a list outcome" where
  "std_make_heap cmp first lst xs =
     (if lst - first < 2 then Returns xs
      else std_make_heap_loop cmp first (lst - first) ((lst - first - 2) div 2) xs)"

function std_sort_heap ::
  "('a \<Rightarrow> 'a \<Rightarrow> error + bool) \<Rightarrow> nat \<Rightarrow> nat \<Rightarrow> 'a list \<Rightarrow> 'a list outcome" where
  "std_sort_heap cmp first lst xs =
     (if 1 < lst - first
      then (case std_pop_heap cmp first (lst - 1) (lst - 1) xs of
              Throws e \<Rightarrow> Throws e
            | Undefined \<Rightarrow> Undefined
            | Returns xs1 \<Rightarrow> std_sort_heap cmp first (lst - 1) xs1)
      else Returns xs)"
  by pat_completeness auto
termination
  by (relation "measure (\<lambda>(cmp, first, lst, xs). lst)") auto

function std_heap_select_loop ::
  "('a \<Rightarrow> 'a \<Rightarrow> error + bool) \<Rightarrow> nat \<Rightarrow> nat \<Rightarrow> nat \<Rightarrow> nat \<Rightarrow> 'a list \<Rightarrow> 'a list outcome"
  where
  "std_heap_select_loop cmp first middle lst i xs =
     (if i < lst
      then (case cmp (xs ! i) (xs ! first) of
              Inl e \<Rightarrow> Throws e
            | Inr True \<Rightarrow>
                (case std_pop_heap cmp first middle i xs of
                   Throws e \<Rightarrow> Throws e
                 | Undefined \<Rightarrow> Undefined
                 | Returns xs1 \<Rightarrow> std_heap_select_loop cmp first middle lst (i + 1) xs1)
            | Inr False \<Rightarrow> std_heap_select_loop cmp first middle lst (i + 1) xs)
      else Returns xs)"
  by pat_completeness auto
termination
  by (relation "measure (\<lambda>(cmp, first, middle, lst, i, xs). lst - i)") auto

definition std_heap_select ::
  "('a \<Rightarrow> 'a \<Rightarrow> error + bool) \<Rightarrow> nat \<Rightarrow> nat \<Rightarrow> nat \<Rightarrow> 'a list \<Rightarrow> 'a list outcome" where
  "std_heap_select cmp first middle lst xs =
     (case std_make_heap cmp first middle xs of
        Throws e \<Rightarrow> Throws e
      | Undefined \<Rightarrow> Undefined
      | Returns xs1 \<Rightarrow> std_heap_select_loop cmp first middle lst middle xs1)"

definition std_partial_sort ::
  "('a \<Rightarrow> 'a \<Rightarrow> error + bool) \<Rightarrow> nat \<Rightarrow> nat \<Rightarrow> nat \<Rightarrow> 'a list \<Rightarrow> 'a list outcome" where
  "std_partial_sort cmp first middle lst xs =
     (case std_heap_select cmp first middle lst xs of
        Throws e \<Rightarrow> Throws e
      | Undefined \<Rightarrow> Undefined
      | Returns xs1 \<Rightarrow> std_sort_heap cmp first middle xs1)"

text \<open>
  The partition of \<^verbatim>\<open>bits/stl_algo.h\<close>. \<^verbatim>\<open>__move_median_to_first\<close> swaps the median of the
  elements at \<open>a\<close>, \<open>b\<close> and \<open>c\<close> to \<open>result\<close>. \<^verbatim>\<open>__unguarded_partition\<close> has two inner loops,
  \<^verbatim>\<open>while (comp(first, pivot)) ++first\<close> and \<^verbatim>\<open>while (comp(pivot, last)) --last\<close>, neither of
  which compares an iterator with the ends of the sequence.
\<close>

definition std_move_median_to_first ::
  "('a \<Rightarrow> 'a \<Rightarrow> error + bool) \<Rightarrow> nat \<Rightarrow> nat \<Rightarrow> nat \<Rightarrow> nat \<Rightarrow> 'a list \<Rightarrow> 'a list outcome"
  where
  "std_move_median_to_first cmp result a b c xs =
     (case cmp (xs ! a) (xs ! b) of
        Inl e \<Rightarrow> Throws e
      | Inr True \<Rightarrow>
          (case cmp (xs ! b) (xs ! c) of
             Inl e \<Rightarrow> Throws e
           | Inr True \<Rightarrow> Returns (iter_swap xs result b)
           | Inr False \<Rightarrow>
               (case cmp (xs ! a) (xs ! c) of
                  Inl e \<Rightarrow> Throws e
                | Inr True \<Rightarrow> Returns (iter_swap xs result c)
                | Inr False \<Rightarrow> Returns (iter_swap xs result a)))
      | Inr False \<Rightarrow>
          (case cmp (xs ! a) (xs ! c) of
             Inl e \<Rightarrow> Throws e
           | Inr True \<Rightarrow> Returns (iter_swap xs result a)
           | Inr False \<Rightarrow>
               (case cmp (xs ! b) (xs ! c) of
                  Inl e \<Rightarrow> Throws e
                | Inr True \<Rightarrow> Returns (iter_swap xs result c)
                | Inr False \<Rightarrow> Returns (iter_swap xs result b))))"

function std_partition_up ::
  "('a \<Rightarrow> 'a \<Rightarrow> error + bool) \<Rightarrow> 'a list \<Rightarrow> nat \<Rightarrow> nat \<Rightarrow> nat outcome" where
  "std_partition_up cmp xs pivot first =
     (if first < length xs
      then (case cmp (xs ! first) (xs ! pivot) of
              Inl e \<Rightarrow> Throws e
            | Inr True \<Rightarrow> std_partition_up cmp xs pivot (first + 1)
            | Inr False \<Rightarrow> Returns first)
      else Undefined)"
  by pat_completeness auto
termination
  by (relation "measure (\<lambda>(cmp, xs, pivot, first). length xs - first)") auto

function std_partition_down ::
  "('a \<Rightarrow> 'a \<Rightarrow> error + bool) \<Rightarrow> 'a list \<Rightarrow> nat \<Rightarrow> nat \<Rightarrow> nat outcome" where
  "std_partition_down cmp xs pivot lst =
     (case cmp (xs ! pivot) (xs ! lst) of
        Inl e \<Rightarrow> Throws e
      | Inr True \<Rightarrow> if lst = 0 then Undefined else std_partition_down cmp xs pivot (lst - 1)
      | Inr False \<Rightarrow> Returns lst)"
  by pat_completeness auto
termination
  by (relation "measure (\<lambda>(cmp, xs, pivot, lst). lst)") auto

function std_unguarded_partition ::
  "('a \<Rightarrow> 'a \<Rightarrow> error + bool) \<Rightarrow> nat \<Rightarrow> nat \<Rightarrow> nat \<Rightarrow> 'a list \<Rightarrow> (nat \<times> 'a list) outcome"
  where
  "std_unguarded_partition cmp first lst pivot xs =
     (case std_partition_up cmp xs pivot first of
        Throws e \<Rightarrow> Throws e
      | Undefined \<Rightarrow> Undefined
      | Returns first1 \<Rightarrow>
          if lst = 0 then Undefined
          else (case std_partition_down cmp xs pivot (lst - 1) of
                  Throws e \<Rightarrow> Throws e
                | Undefined \<Rightarrow> Undefined
                | Returns lst1 \<Rightarrow>
                    if \<not> first1 < lst1 then Returns (first1, xs)
                    else std_unguarded_partition cmp (first1 + 1) lst1 pivot
                           (iter_swap xs first1 lst1)))"
  by pat_completeness auto
termination
proof (relation "measure (\<lambda>(cmp, first, lst, pivot, xs). lst)")
  show "wf (measure (\<lambda>(cmp, first, lst, pivot, xs). lst))" by simp
next
  fix cmp :: "'a \<Rightarrow> 'a \<Rightarrow> error + bool" and first lst pivot :: nat and xs :: "'a list"
    and first1 lst1 :: nat
  assume pos: "lst \<noteq> 0" and down: "std_partition_down cmp xs pivot (lst - 1) = Returns lst1"
  have "std_partition_down cmp xs pivot n = Returns l \<Longrightarrow> l \<le> n" for n l
  proof (induction n)
    case 0
    then show ?case
      by (subst (asm) std_partition_down.simps)
        (simp del: std_partition_down.simps split: sum.splits bool.splits)
  next
    case (Suc n)
    from Suc.prems have "l = Suc n \<or> std_partition_down cmp xs pivot n = Returns l"
      by (subst (asm) std_partition_down.simps)
        (simp del: std_partition_down.simps split: sum.splits bool.splits)
    then show ?case using Suc.IH by (auto simp del: std_partition_down.simps)
  qed
  from this [OF down] have "lst1 < lst" using pos by simp
  then show "((cmp, first1 + 1, lst1, pivot, iter_swap xs first1 lst1), cmp, first, lst, pivot, xs)
       \<in> measure (\<lambda>(cmp, first, lst, pivot, xs). lst)" by simp
qed

definition std_unguarded_partition_pivot ::
  "('a \<Rightarrow> 'a \<Rightarrow> error + bool) \<Rightarrow> nat \<Rightarrow> nat \<Rightarrow> 'a list \<Rightarrow> (nat \<times> 'a list) outcome" where
  "std_unguarded_partition_pivot cmp first lst xs =
     (case std_move_median_to_first cmp first (first + 1) (first + (lst - first) div 2)
             (lst - 1) xs of
        Throws e \<Rightarrow> Throws e
      | Undefined \<Rightarrow> Undefined
      | Returns xs1 \<Rightarrow> std_unguarded_partition cmp (first + 1) lst first xs1)"

text \<open>
  \<^verbatim>\<open>__introsort_loop\<close>: the loop body ends with \<^verbatim>\<open>__last = __cut\<close>, so the next iteration is the
  call on the range from \<open>first\<close> to \<open>cutp\<close> with the decremented depth limit.
\<close>

function std_introsort_loop ::
  "('a \<Rightarrow> 'a \<Rightarrow> error + bool) \<Rightarrow> nat \<Rightarrow> nat \<Rightarrow> nat \<Rightarrow> 'a list \<Rightarrow> 'a list outcome" where
  "std_introsort_loop cmp first lst depth_limit xs =
     (if 16 < lst - first
      then (if depth_limit = 0 then std_partial_sort cmp first lst lst xs
            else (case std_unguarded_partition_pivot cmp first lst xs of
                    Throws e \<Rightarrow> Throws e
                  | Undefined \<Rightarrow> Undefined
                  | Returns (cutp, xs1) \<Rightarrow>
                      (case std_introsort_loop cmp cutp lst (depth_limit - 1) xs1 of
                         Throws e \<Rightarrow> Throws e
                       | Undefined \<Rightarrow> Undefined
                       | Returns xs2 \<Rightarrow> std_introsort_loop cmp first cutp (depth_limit - 1) xs2)))
      else Returns xs)"
  by pat_completeness auto
termination
  by (relation "measure (\<lambda>(cmp, first, lst, depth_limit, xs). depth_limit)") auto

text \<open>
  The insertion sort. \<^verbatim>\<open>__unguarded_linear_insert\<close> takes the element at \<open>lst\<close> out and shifts
  the elements before it one place up for as long as the element is less than them, without
  looking for the beginning of the sequence. \<^verbatim>\<open>__insertion_sort\<close> calls it for an element that
  is not less than the first one, and moves an element that is less than the first one to the
  front with \<^verbatim>\<open>std::move_backward\<close> (\<open>move_to_front\<close>). Its loop runs \<open>i\<close> from \<open>first + 1\<close>
  until \<^verbatim>\<open>i != last\<close> fails; \<open>i\<close> never exceeds \<open>lst\<close>.
\<close>

function std_unguarded_linear_insert_loop ::
  "('a \<Rightarrow> 'a \<Rightarrow> error + bool) \<Rightarrow> 'a \<Rightarrow> nat \<Rightarrow> 'a list \<Rightarrow> 'a list outcome" where
  "std_unguarded_linear_insert_loop cmp val lst xs =
     (if lst = 0 then Undefined
      else (case cmp val (xs ! (lst - 1)) of
              Inl e \<Rightarrow> Throws e
            | Inr True \<Rightarrow>
                std_unguarded_linear_insert_loop cmp val (lst - 1) (xs[lst := xs ! (lst - 1)])
            | Inr False \<Rightarrow> Returns (xs[lst := val])))"
  by pat_completeness auto
termination
  by (relation "measure (\<lambda>(cmp, val, lst, xs). lst)") auto

definition std_unguarded_linear_insert ::
  "('a \<Rightarrow> 'a \<Rightarrow> error + bool) \<Rightarrow> nat \<Rightarrow> 'a list \<Rightarrow> 'a list outcome" where
  "std_unguarded_linear_insert cmp lst xs =
     std_unguarded_linear_insert_loop cmp (xs ! lst) lst xs"

definition move_to_front :: "nat \<Rightarrow> nat \<Rightarrow> 'a list \<Rightarrow> 'a list" where
  "move_to_front first i xs =
     take first xs @ xs ! i # take (i - first) (drop first xs) @ drop (i + 1) xs"

function std_insertion_sort_loop ::
  "('a \<Rightarrow> 'a \<Rightarrow> error + bool) \<Rightarrow> nat \<Rightarrow> nat \<Rightarrow> nat \<Rightarrow> 'a list \<Rightarrow> 'a list outcome" where
  "std_insertion_sort_loop cmp first lst i xs =
     (if i < lst
      then (case cmp (xs ! i) (xs ! first) of
              Inl e \<Rightarrow> Throws e
            | Inr True \<Rightarrow> std_insertion_sort_loop cmp first lst (i + 1) (move_to_front first i xs)
            | Inr False \<Rightarrow>
                (case std_unguarded_linear_insert cmp i xs of
                   Throws e \<Rightarrow> Throws e
                 | Undefined \<Rightarrow> Undefined
                 | Returns xs1 \<Rightarrow> std_insertion_sort_loop cmp first lst (i + 1) xs1))
      else Returns xs)"
  by pat_completeness auto
termination
  by (relation "measure (\<lambda>(cmp, first, lst, i, xs). lst - i)") auto

definition std_insertion_sort ::
  "('a \<Rightarrow> 'a \<Rightarrow> error + bool) \<Rightarrow> nat \<Rightarrow> nat \<Rightarrow> 'a list \<Rightarrow> 'a list outcome" where
  "std_insertion_sort cmp first lst xs =
     (if first = lst then Returns xs else std_insertion_sort_loop cmp first lst (first + 1) xs)"

function std_unguarded_insertion_sort ::
  "('a \<Rightarrow> 'a \<Rightarrow> error + bool) \<Rightarrow> nat \<Rightarrow> nat \<Rightarrow> 'a list \<Rightarrow> 'a list outcome" where
  "std_unguarded_insertion_sort cmp i lst xs =
     (if i < lst
      then (case std_unguarded_linear_insert cmp i xs of
              Throws e \<Rightarrow> Throws e
            | Undefined \<Rightarrow> Undefined
            | Returns xs1 \<Rightarrow> std_unguarded_insertion_sort cmp (i + 1) lst xs1)
      else Returns xs)"
  by pat_completeness auto
termination
  by (relation "measure (\<lambda>(cmp, i, lst, xs). lst - i)") auto

definition std_final_insertion_sort ::
  "('a \<Rightarrow> 'a \<Rightarrow> error + bool) \<Rightarrow> nat \<Rightarrow> nat \<Rightarrow> 'a list \<Rightarrow> 'a list outcome" where
  "std_final_insertion_sort cmp first lst xs =
     (if 16 < lst - first
      then (case std_insertion_sort cmp first (first + 16) xs of
              Throws e \<Rightarrow> Throws e
            | Undefined \<Rightarrow> Undefined
            | Returns xs1 \<Rightarrow> std_unguarded_insertion_sort cmp (first + 16) lst xs1)
      else std_insertion_sort cmp first lst xs)"

text \<open>\<^verbatim>\<open>std::sort(first, last, comp)\<close> on a whole vector, from index \<open>0\<close> to its length.\<close>

definition std_sort :: "('a \<Rightarrow> 'a \<Rightarrow> error + bool) \<Rightarrow> 'a list \<Rightarrow> 'a list outcome" where
  "std_sort cmp xs =
     (if xs \<noteq> []
      then (case std_introsort_loop cmp 0 (length xs) (std_lg (length xs) * 2) xs of
              Throws e \<Rightarrow> Throws e
            | Undefined \<Rightarrow> Undefined
            | Returns xs1 \<Rightarrow> std_final_insertion_sort cmp 0 (length xs) xs1)
      else Returns xs)"

section \<open>Ingestion\<close>

text \<open>
  The input stream is the string of its unread characters. \<^verbatim>\<open>std::getline(input, line)\<close> fails
  when no character is left; otherwise it takes the characters up to the next newline as the
  line and removes them and the newline from the stream.
\<close>

definition getline :: "string \<Rightarrow> (string \<times> string) option" where
  "getline input =
     (if input = [] then None
      else Some (takeWhile (\<lambda>c. c \<noteq> CHR 0x0A) input,
                 drop 1 (dropWhile (\<lambda>c. c \<noteq> CHR 0x0A) input)))"

text \<open>
  Formatted extraction \<^verbatim>\<open>iss >> x\<close> of a double first skips white space (\<^verbatim>\<open>std::isspace\<close> in the
  default locale) and fails at the end of the stream. Reading the numeric literal itself is the
  library's \<^verbatim>\<open>num_get\<close>, an argument \<open>get\<close> of the model: applied to the unread characters, the
  first of which is not white space, it returns \<open>None\<close> when no number starts there and
  \<open>Some (x, n)\<close> when it stores \<open>x\<close> and consumes the first \<open>n + 1\<close> characters.
\<close>

type_synonym 'd num_get = "string \<Rightarrow> ('d \<times> nat) option"

definition isspace :: "char \<Rightarrow> bool" where
  "isspace c \<longleftrightarrow> c \<in> {CHR 0x20, CHR 0x09, CHR 0x0A, CHR 0x0B, CHR 0x0C, CHR 0x0D}"

definition extract_double :: "'d num_get \<Rightarrow> string \<Rightarrow> ('d \<times> string) option" where
  "extract_double get s =
     (let s' = dropWhile isspace s in
      if s' = [] then None
      else (case get s' of None \<Rightarrow> None | Some (x, n) \<Rightarrow> Some (x, drop (Suc n) s')))"

text \<open>
  \<^verbatim>\<open>std::istream_iterator<double> iter{iss}, end; v.insert(v.cbegin(), iter, end)\<close>: the vector of
  a line holds the doubles extracted one after the other until an extraction fails.
\<close>

function read_doubles :: "'d num_get \<Rightarrow> string \<Rightarrow> 'd dvec" where
  "read_doubles get s =
     (case extract_double get s of None \<Rightarrow> [] | Some (x, rest) \<Rightarrow> x # read_doubles get rest)"
  by pat_completeness auto
termination
proof (relation "measure (\<lambda>(get, s). length s)")
  show "wf (measure (\<lambda>(get :: 'd num_get, s). length s))" by simp
next
  fix get :: "'d num_get" and s :: string and y x rest
  assume "extract_double get s = Some y" and "(x, rest) = y"
  then obtain n where "dropWhile isspace s \<noteq> []" and "rest = drop (Suc n) (dropWhile isspace s)"
    by (auto simp: extract_double_def Let_def split: if_splits option.splits)
  moreover have "length (dropWhile isspace s) \<le> length s"
    by (rule length_dropWhile_le)
  ultimately show "((get, rest), (get, s)) \<in> measure (\<lambda>(get, s). length s)"
    by (cases "dropWhile isspace s") auto
qed

declare read_doubles.simps [simp del]

text \<open>
  \<^verbatim>\<open>ingest_dvecs\<close>: the loop reads a line, builds its vector and appends it to \<^verbatim>\<open>output\<close>, unless
  \<^verbatim>\<open>output\<close> is not empty and the size of \<^verbatim>\<open>output[0]\<close> differs, when it throws. The stream is a
  reference argument, so the model returns its unread characters together with the result.
\<close>

function ingest_loop ::
  "'d num_get \<Rightarrow> string \<Rightarrow> 'd dvec list \<Rightarrow> (error + 'd dvec list) \<times> string" where
  "ingest_loop get input output =
     (case getline input of
        None \<Rightarrow> (Inr output, input)
      | Some (line, rest) \<Rightarrow>
          (let v = read_doubles get line in
           if output \<noteq> [] \<and> length (output ! 0) \<noteq> length v
           then (Inl (runtime_error ''mismatched input vector dimensions''), rest)
           else ingest_loop get rest (output @ [v])))"
  by pat_completeness auto
termination
proof (relation "measure (\<lambda>(get, input, output). length input)")
  show "wf (measure (\<lambda>(get :: 'd num_get, input, output :: 'd dvec list). length input))"
    by simp
next
  fix get :: "'d num_get" and input :: string and out :: "'d dvec list"
    and y line rest v
  assume "getline input = Some y" and "(line, rest) = y"
  then have "input \<noteq> []" and "rest = drop 1 (dropWhile (\<lambda>c. c \<noteq> CHR 0x0A) input)"
    by (auto simp: getline_def split: if_splits)
  moreover have "length (dropWhile (\<lambda>c. c \<noteq> CHR 0x0A) input) \<le> length input"
    by (rule length_dropWhile_le)
  ultimately show
    "((get, rest, out @ [v]), (get, input, out)) \<in>
       measure (\<lambda>(get, input, output). length input)"
    by (cases input) auto
qed

declare ingest_loop.simps [simp del]

definition ingest_dvecs :: "'d num_get \<Rightarrow> string \<Rightarrow> (error + 'd dvec list) \<times> string" where
  "ingest_dvecs get input = ingest_loop get input []"

text \<open>
  The lines that successive calls of \<^verbatim>\<open>std::getline\<close> deliver, and the stream after \<open>n\<close> of
  them: the vocabulary in which the behaviour of the loop is stated.
\<close>

function lines_of :: "string \<Rightarrow> string list" where
  "lines_of input =
     (case getline input of None \<Rightarrow> [] | Some (line, rest) \<Rightarrow> line # lines_of rest)"
  by pat_completeness auto
termination
proof (relation "measure length")
  show "wf (measure (length :: string \<Rightarrow> nat))" by simp
next
  fix input :: string and y line rest
  assume "getline input = Some y" and "(line, rest) = y"
  then have "input \<noteq> []" and "rest = drop 1 (dropWhile (\<lambda>c. c \<noteq> CHR 0x0A) input)"
    by (auto simp: getline_def split: if_splits)
  moreover have "length (dropWhile (\<lambda>c. c \<noteq> CHR 0x0A) input) \<le> length input"
    by (rule length_dropWhile_le)
  ultimately show "(rest, input) \<in> measure length"
    by (cases input) auto
qed

declare lines_of.simps [simp del]

fun unread_after :: "nat \<Rightarrow> string \<Rightarrow> string" where
  "unread_after 0 input = input"
| "unread_after (Suc n) input =
     (case getline input of None \<Rightarrow> input | Some (line, rest) \<Rightarrow> unread_after n rest)"

text \<open>
  The position of the first vector whose size differs from the size of the first vector (the
  length of the sequence when there is none).
\<close>

definition first_mismatch :: "'d dvec list \<Rightarrow> nat" where
  "first_mismatch vs = length (takeWhile (\<lambda>v. length v = length (vs ! 0)) vs)"

text \<open>
  One reader of numeric literals, for evaluating the ingestion on concrete inputs: it reads an
  unsigned decimal integer, as \<^verbatim>\<open>num_get\<close> does on a run of digits followed by a space or the
  end of the line.
\<close>

definition is_digit :: "char \<Rightarrow> bool" where
  "is_digit c \<longleftrightarrow> 48 \<le> (of_char c :: nat) \<and> (of_char c :: nat) \<le> 57"

definition get_unsigned :: "real num_get" where
  "get_unsigned s =
     (let ds = takeWhile is_digit s in
      if ds = [] then None
      else Some (of_nat (foldl (\<lambda>n c. 10 * n + (of_char c - 48)) 0 ds), length ds - 1))"

section \<open>Textual representation\<close>

text \<open>
  \<^verbatim>\<open>operator<<\<close> for a \<^verbatim>\<open>dvec\<close>: \<^verbatim>\<open>[]\<close> for the empty vector; otherwise \<^verbatim>\<open>[\<close>, every element but the
  last followed by a comma and a space (the loop runs while \<^verbatim>\<open>it != endm1\<close>), the last element
  and \<^verbatim>\<open>]\<close>. Writing one double to the stream is the library's; it is the argument \<open>put\<close>.
\<close>

fun render_loop :: "('d \<Rightarrow> string) \<Rightarrow> 'd list \<Rightarrow> string" where
  "render_loop put [] = []" \<comment> \<open>not reached: the loop starts on a non-empty vector\<close>
| "render_loop put [x] = put x @ '']''"
| "render_loop put (x # it) = put x @ '', '' @ render_loop put it"

definition render :: "('d \<Rightarrow> string) \<Rightarrow> 'd dvec \<Rightarrow> string" where
  "render put self = (if length self = 0 then ''[]'' else ''['' @ render_loop put self)"

text \<open>
  The round trip of the specification: the text of a vector, its commas and brackets ignored,
  is read as one line of numbers, the way \<^verbatim>\<open>ingest_dvecs\<close> reads a line.
\<close>

definition strip_punct :: "string \<Rightarrow> string" where
  "strip_punct s = filter (\<lambda>c. c \<notin> {CHR ''['', CHR '']'', CHR '',''}) s"

definition reparse :: "'d num_get \<Rightarrow> ('d \<Rightarrow> string) \<Rightarrow> 'd dvec \<Rightarrow> 'd dvec" where
  "reparse get put v = read_doubles get (strip_punct (render put v))"

text \<open>
  A double is read back from its text: the text is not empty, does not begin with white space
  and holds no comma or bracket, and reading it, at the end of the line or in front of a space,
  consumes it and stores the double that was printed.
\<close>

definition reads_back :: "'d num_get \<Rightarrow> ('d \<Rightarrow> string) \<Rightarrow> 'd \<Rightarrow> bool" where
  "reads_back get put x \<longleftrightarrow>
     put x \<noteq> [] \<and> \<not> isspace (hd (put x)) \<and>
     (\<forall>c\<in>set (put x). c \<notin> {CHR ''['', CHR '']'', CHR '',''}) \<and>
     (\<forall>rest. rest = [] \<or> hd rest = CHR '' '' \<longrightarrow>
        get (put x @ rest) = Some (x, length (put x) - 1))"

text \<open>
  Writing a double to a stream in its default state is the conversion \<^verbatim>\<open>%g\<close> of \<^verbatim>\<open>printf\<close> with
  precision 6: the number is rounded to six significant decimal digits \<open>m\<close> with decimal
  exponent \<open>X\<close>; for \<open>-4 \<le> X < 6\<close> it is written in fixed notation, otherwise with an exponent
  of at least two digits; in both cases zeros at the end of the fraction are dropped, and the
  point with them when no fraction is left.
\<close>

function digits :: "nat \<Rightarrow> string" where
  "digits n =
     (if n < 10 then [''0123456789'' ! n] else digits (n div 10) @ [''0123456789'' ! (n mod 10)])"
  by pat_completeness auto
termination
  by (relation "measure id") auto

declare digits.simps [simp del]

definition strip_zeros :: "string \<Rightarrow> string" where
  "strip_zeros s = rev (dropWhile (\<lambda>c. c = CHR ''0'') (rev s))"

definition fraction :: "string \<Rightarrow> string" where
  "fraction s = (if strip_zeros s = [] then [] else CHR ''.'' # strip_zeros s)"

definition significand6 :: "real \<Rightarrow> nat \<times> int" where
  "significand6 a =
     (let X = \<lfloor>log 10 a\<rfloor>; m = nat (rne (a / 10 powr (of_int X - 5)))
      in if m = 1000000 then (100000, X + 1) else (m, X))"

definition exponent_field :: "int \<Rightarrow> string" where
  "exponent_field X =
     CHR ''e'' # (if X < 0 then CHR ''-'' else CHR ''+'') #
     (if \<bar>X\<bar> < 10 then CHR ''0'' # digits (nat \<bar>X\<bar>) else digits (nat \<bar>X\<bar>))"

definition layout :: "nat \<times> int \<Rightarrow> string" where
  "layout mX =
     (let ds = digits (fst mX); X = snd mX in
      if X < - 4 \<or> 6 \<le> X then hd ds # fraction (tl ds) @ exponent_field X
      else if X < 0 then ''0.'' @ replicate (nat (- X - 1)) CHR ''0'' @ strip_zeros ds
      else take (nat X + 1) ds @ fraction (drop (nat X + 1) ds))"

fun put64 :: "double \<Rightarrow> string" where
  "put64 (Num x) =
     (if x = 0 then ''0''
      else (if x < 0 then ''-'' else []) @ layout (significand6 \<bar>x\<bar>))"
| "put64 (Infinity s) = (if s then ''inf'' else ''-inf'')"
| "put64 NaN = ''nan''"

text \<open>The reader of unsigned decimal integers, storing doubles.\<close>

definition get_unsigned64 :: "double num_get" where
  "get_unsigned64 s =
     (case get_unsigned s of None \<Rightarrow> None | Some (x, n) \<Rightarrow> Some (round64 x, n))"

section \<open>Pair enumeration: proofs\<close>

lemma inner_loop_eq: "inner_loop x it2 pairs = pairs @ map (Pair x) it2"
  by (induction it2 arbitrary: pairs) simp_all

lemma outer_loop_Cons: "outer_loop (x # it) pairs = outer_loop it (pairs @ map (Pair x) it)"
  by (simp add: inner_loop_eq)

lemma outer_loop_append: "outer_loop it pairs = pairs @ outer_loop it []"
proof (induction it arbitrary: pairs)
  case Nil
  show ?case by simp
next
  case (Cons x it)
  have "outer_loop (x # it) pairs = (pairs @ map (Pair x) it) @ outer_loop it []"
    unfolding outer_loop_Cons using Cons.IH [of "pairs @ map (Pair x) it"] .
  also have "\<dots> = pairs @ outer_loop (x # it) []"
    unfolding outer_loop_Cons using Cons.IH [of "[] @ map (Pair x) it"] by simp
  finally show ?case .
qed

lemma pairwise_elts_Nil: "pairwise_elts [] = []"
  by (simp add: pairwise_elts_def)

lemma pairwise_elts_Cons: "pairwise_elts (x # xs) = map (Pair x) xs @ pairwise_elts xs"
  unfolding pairwise_elts_def outer_loop_Cons
  using outer_loop_append [of xs "[] @ map (Pair x) xs"] by simp

lemma index_pairs_Suc:
  "index_pairs (Suc N) =
     map (Pair 0) [Suc 0..<Suc N] @ map (\<lambda>(i, j). (Suc i, Suc j)) (index_pairs N)"
proof -
  have row: "map (Pair (Suc i)) [Suc (Suc i)..<Suc N] =
             map (\<lambda>(i, j). (Suc i, Suc j)) (map (Pair i) [Suc i..<N])" for i
    by (simp add: map_Suc_upt [symmetric] del: upt_Suc)
  have "[0..<Suc N] = 0 # map Suc [0..<N]"
    by (simp add: upt_conv_Cons map_Suc_upt del: upt_Suc)
  then have "index_pairs (Suc N) =
      map (Pair 0) [Suc 0..<Suc N] @
      concat (map (\<lambda>i. map (Pair (Suc i)) [Suc (Suc i)..<Suc N]) [0..<N])"
    unfolding index_pairs_def by (simp add: comp_def del: upt_Suc)
  also have "concat (map (\<lambda>i. map (Pair (Suc i)) [Suc (Suc i)..<Suc N]) [0..<N]) =
      map (\<lambda>(i, j). (Suc i, Suc j)) (index_pairs N)"
    unfolding index_pairs_def row by (simp add: map_concat comp_def)
  finally show ?thesis .
qed

lemma set_index_pairs: "set (index_pairs N) = {(i, j). i < j \<and> j < N}"
  by (fastforce simp: index_pairs_def)

lemma length_index_pairs: "length (index_pairs N) = N * (N - 1) div 2"
proof (induction N)
  case 0
  show ?case by (simp add: index_pairs_def)
next
  case (Suc N)
  have "Suc N * N div 2 = N + N * (N - 1) div 2"
  proof (cases N)
    case 0
    then show ?thesis by simp
  next
    case (Suc m)
    have "Suc (Suc m) * Suc m = 2 * Suc m + Suc m * m" by simp
    then show ?thesis using Suc by simp
  qed
  then show ?case using Suc.IH by (simp add: index_pairs_Suc del: upt_Suc)
qed

lemma sorted_index_pairs: "sorted_wrt lex_less (index_pairs N)"
proof (induction N)
  case 0
  show ?case by (simp add: index_pairs_def)
next
  case (Suc N)
  have a: "sorted_wrt lex_less (map (Pair 0) [Suc 0..<Suc N])"
    by (simp add: sorted_wrt_map lex_less_def del: upt_Suc)
  have b: "sorted_wrt lex_less (map (\<lambda>(i, j). (Suc i, Suc j)) (index_pairs N))"
    using Suc.IH by (simp add: sorted_wrt_map lex_less_def case_prod_beta)
  show ?case
    unfolding index_pairs_Suc sorted_wrt_append using a b
    by (auto simp: lex_less_def simp del: upt_Suc)
qed

lemma strictly_sorted_distinct: "sorted_wrt P xs \<Longrightarrow> (\<And>x. \<not> P x x) \<Longrightarrow> distinct xs"
  by (induction xs) auto

lemma distinct_index_pairs: "distinct (index_pairs N)"
  by (rule strictly_sorted_distinct [OF sorted_index_pairs]) (simp add: lex_less_def)

lemma pairwise_elts_index:
  "pairwise_elts vecs = map (\<lambda>(i, j). (vecs ! i, vecs ! j)) (index_pairs (length vecs))"
proof (induction vecs)
  case Nil
  show ?case by (simp add: pairwise_elts_Nil index_pairs_def)
next
  case (Cons x xs)
  have "map (Pair x) (map ((!) xs) [0..<length xs]) =
        map (\<lambda>j. (x, (x # xs) ! j)) [Suc 0..<Suc (length xs)]"
    by (simp add: map_Suc_upt [symmetric] comp_def del: upt_Suc)
  then have "map (Pair x) xs = map (\<lambda>j. (x, (x # xs) ! j)) [Suc 0..<Suc (length xs)]"
    by (simp only: map_nth)
  then show ?case
    unfolding pairwise_elts_Cons Cons.IH
    by (simp add: index_pairs_Suc comp_def case_prod_beta del: upt_Suc)
qed

text \<open>
  Claim C4. For a sequence of \<open>N\<close> vectors \<^verbatim>\<open>pairwise_elts\<close> returns, position by position, the
  pairs \<open>(vecs[i], vecs[j])\<close> of the index pairs \<open>(i, j)\<close> with \<open>i < j < N\<close>; these index pairs
  are listed without repetition and in strictly increasing lexicographic order, so none has
  \<open>i = j\<close>, and there are \<open>N * (N - 1) / 2\<close> of them (none when \<open>N < 2\<close>).
\<close>

theorem pairwise_elts_enumeration:
  "pairwise_elts vecs = map (\<lambda>(i, j). (vecs ! i, vecs ! j)) (index_pairs (length vecs))
   \<and> length (pairwise_elts vecs) = length vecs * (length vecs - 1) div 2
   \<and> set (index_pairs (length vecs)) = {(i, j). i < j \<and> j < length vecs}
   \<and> distinct (index_pairs (length vecs))
   \<and> sorted_wrt lex_less (index_pairs (length vecs))"
proof -
  have "length (pairwise_elts vecs) = length (index_pairs (length vecs))"
    by (simp add: pairwise_elts_index)
  then show ?thesis
    using pairwise_elts_index [of vecs] set_index_pairs distinct_index_pairs sorted_index_pairs
    by (simp add: length_index_pairs)
qed

section \<open>The vector operations: proofs\<close>


lemma dot_loop_exact: "dot_loop exact zs acc = acc + (\<Sum>(x, y)\<leftarrow>zs. x * y)"
  by (induction zs arbitrary: acc) (auto simp: exact_def)



lemma theta_mismatch:
  "length a \<noteq> length b \<Longrightarrow> theta fp a b = Inl (logic_error ''mismatched dvec dimensions'')"
  by (simp add: theta_def assert_compatible_def)

lemma dot_match: "length a = length b \<Longrightarrow> dot fp a b = Inr (dot_loop fp (zip a b) (fzero fp))"
  by (simp add: dot_def assert_compatible_def)

lemma norm_dvec_total: "norm_dvec fp v = Inr (fsqrt fp (dot_loop fp (zip v v) (fzero fp)))"
  by (simp add: norm_dvec_def dot_match)

text \<open>
  The loop without \<^verbatim>\<open>HAVEZIP\<close> returns what the loop over the zipped vectors returns as long as
  the vectors have fewer than \<open>2\<^sup>3\<^sup>2\<close> elements, the range of its counter. On longer vectors
  the counter wraps around before it reaches \<^verbatim>\<open>a.size()\<close> and the loop does not end.
\<close>

lemma dot_index_loop_returns:
  assumes len: "length a = length b" and small: "length a < 2 ^ 32"
  shows "unat i \<le> length a \<Longrightarrow>
         dot_index_loop fp a b i acc = Some (dot_loop fp (drop (unat i) (zip a b)) acc)"
proof (induction "length a - unat i" arbitrary: i acc)
  case 0
  then have "unat i = length a" by simp
  then show ?case using len by (subst dot_index_loop.simps) simp
next
  case (Suc n)
  then have lt: "unat i < length a" by simp
  then have "unat i + 1 < 2 ^ 32" using small by simp
  then have next_i: "unat (i + 1) = Suc (unat i)"
    by (simp add: unat_add_lem [THEN iffD1])
  have "n = length a - unat (i + 1)" using Suc.hyps(2) next_i by simp
  moreover have "unat (i + 1) \<le> length a" using lt next_i by simp
  ultimately have IH: "dot_index_loop fp a b (i + 1) acc' =
      Some (dot_loop fp (drop (unat (i + 1)) (zip a b)) acc')" for acc'
    by (rule Suc.hyps(1))
  have "drop (unat i) (zip a b) = (a ! unat i, b ! unat i) # drop (Suc (unat i)) (zip a b)"
    using lt len by (simp add: Cons_nth_drop_Suc [symmetric])
  then show ?case
    using lt by (subst dot_index_loop.simps) (simp add: IH next_i)
qed

lemma dot_index_agrees:
  assumes "length a = length b \<longrightarrow> length a < 2 ^ 32"
  shows "dot_index fp a b = Some (dot fp a b)"
proof (cases "length a = length b")
  case True
  then have "dot_index_loop fp a b 0 (fzero fp) = Some (dot_loop fp (zip a b) (fzero fp))"
    using dot_index_loop_returns [of a b 0 fp "fzero fp"] assms by simp
  then show ?thesis using True by (simp add: dot_index_def dot_def assert_compatible_def)
next
  case False
  then show ?thesis by (simp add: dot_index_def dot_def assert_compatible_def)
qed

lemma dot_index_loop_Some_small:
  fixes a :: "'d dvec"
  assumes "dot_index_loop fp a b i acc = Some y"
  shows "length a < 2 ^ 32"
proof (rule dot_index_loop.raw_induct
    [where P = "\<lambda>fp (a :: 'd dvec) b i acc y. length a < 2 ^ 32", OF _ assms])
  fix f :: "'d fpu \<Rightarrow> 'd dvec \<Rightarrow> 'd dvec \<Rightarrow> 32 word \<Rightarrow> 'd \<Rightarrow> 'd option"
    and fp a b i acc y
  assume IH: "\<And>fp a b i acc y. f fp a b i acc = Some y \<Longrightarrow> length a < 2 ^ 32"
    and step: "(if unat i < length a
                then f fp a b (i + 1) (fadd fp acc (fmul fp (a ! unat i) (b ! unat i)))
                else Some acc) = Some y"
  show "length a < 2 ^ 32"
  proof (cases "unat i < length a")
    case True
    then show ?thesis using IH step by simp
  next
    case False
    moreover have "unat i < 2 ^ 32"
      using unsigned_less [of i, where 'a = nat] by simp
    ultimately show ?thesis by simp
  qed
qed

lemma dot_index_loop_diverges:
  "2 ^ 32 \<le> length a \<Longrightarrow> dot_index_loop fp a b i acc = None"
  using dot_index_loop_Some_small [of fp a b i acc] by (cases "dot_index_loop fp a b i acc") auto

lemma norm_index_agrees:
  assumes "length v < 2 ^ 32"
  shows "norm_index fp v = Some (norm_dvec fp v)"
  using dot_index_agrees [of v v fp] assms
  by (simp add: norm_index_def norm_dvec_def dot_match)

lemma theta_index_agrees:
  assumes "length a = length b \<longrightarrow> length a < 2 ^ 32"
  shows "theta_index fp a b = Some (theta fp a b)"
proof (cases "length a = length b")
  case True
  then have "length a < 2 ^ 32" "length b < 2 ^ 32" using assms by simp_all
  then show ?thesis
    using dot_index_agrees [of a b fp] True
    by (simp add: theta_index_def theta_def norm_index_agrees assert_compatible_def dot_match
        norm_dvec_total)
next
  case False
  then show ?thesis by (simp add: theta_index_def theta_def assert_compatible_def)
qed

lemma dot_index_never_returns:
  "2 ^ 32 \<le> length a \<Longrightarrow> length a = length b \<Longrightarrow> dot_index fp a b = None"
  by (simp add: dot_index_def assert_compatible_def dot_index_loop_diverges)




lemma dot_loop_commute:
  assumes "\<forall>x y. fmul fp x y = fmul fp y x"
  shows "dot_loop fp (zip b a) acc = dot_loop fp (zip a b) acc"
proof (induction a b arbitrary: acc rule: list_induct2')
  case (4 x xs y ys)
  then show ?case using assms by simp
qed simp_all

text \<open>
  \<^verbatim>\<open>theta(a, b)\<close> and \<^verbatim>\<open>theta(b, a)\<close> return the same value, or throw the same exception: the two
  calls add up the same products in the same order and divide by the same product of norms,
  multiplication of doubles being commutative.
\<close>

lemma theta_commute:
  assumes "\<forall>x y. fmul fp x y = fmul fp y x"
  shows "theta fp a b = theta fp b a"
proof (cases "length a = length b")
  case True
  then show ?thesis
    using assms dot_loop_commute [OF assms, of b a]
    by (simp add: theta_def assert_compatible_def dot_match norm_dvec_total)
next
  case False
  then show ?thesis by (simp add: theta_mismatch)
qed

section \<open>The angle sort: proofs\<close>

lemma insert_sorted_correct:
  assumes total: "\<And>a b. a \<in> A \<Longrightarrow> b \<in> A \<Longrightarrow> \<not> isl (cmp a b)"
    and irrefl: "\<And>a. a \<in> A \<Longrightarrow> cmp a a \<noteq> Inr True"
    and trans: "\<And>a b c. a \<in> A \<Longrightarrow> b \<in> A \<Longrightarrow> c \<in> A \<Longrightarrow>
                  cmp a b = Inr True \<Longrightarrow> cmp b c = Inr True \<Longrightarrow> cmp a c = Inr True"
    and x: "x \<in> A"
  shows "set ys \<subseteq> A \<Longrightarrow> sorted_wrt (\<lambda>a b. cmp b a = Inr False) ys \<Longrightarrow>
         \<exists>zs. insert_sorted cmp x ys = Inr zs \<and> mset zs = add_mset x (mset ys) \<and>
              sorted_wrt (\<lambda>a b. cmp b a = Inr False) zs"
proof (induction ys)
  case Nil
  show ?case by simp
next
  case (Cons y ys)
  have y: "y \<in> A" and ys: "set ys \<subseteq> A" using Cons.prems(1) by simp_all
  have val: "cmp a b = Inr True \<or> cmp a b = Inr False" if "a \<in> A" "b \<in> A" for a b
  proof -
    have "\<not> isl (cmp a b)" using that by (rule total)
    then obtain r where "cmp a b = Inr r" by (cases "cmp a b") auto
    then show ?thesis by (cases r) auto
  qed
  from val [OF x y] show ?case
  proof
    assume lt: "cmp x y = Inr True"
    have "cmp b x = Inr False" if b: "b \<in> set (y # ys)" for b
    proof -
      have bA: "b \<in> A" using b Cons.prems(1) by auto
      have False if bx: "cmp b x = Inr True"
      proof -
        have by': "cmp b y = Inr True" using trans [OF bA x y bx lt] .
        show False
        proof (cases "b = y")
          case True
          then show ?thesis using by' irrefl [OF y] by simp
        next
          case False
          then have "b \<in> set ys" using b by simp
          then have "cmp b y = Inr False" using Cons.prems(2) by simp
          then show ?thesis using by' by simp
        qed
      qed
      then show ?thesis using val [OF bA x] by blast
    qed
    then show ?thesis using lt Cons.prems(2) by simp
  next
    assume ge: "cmp x y = Inr False"
    have "sorted_wrt (\<lambda>a b. cmp b a = Inr False) ys" using Cons.prems(2) by simp
    from Cons.IH [OF ys this]
    obtain zs where zs: "insert_sorted cmp x ys = Inr zs" "mset zs = add_mset x (mset ys)"
      "sorted_wrt (\<lambda>a b. cmp b a = Inr False) zs" by blast
    have "set_mset (mset zs) = set_mset (add_mset x (mset ys))" using zs(2) by simp
    then have "set zs = insert x (set ys)" by simp
    then have "\<forall>b\<in>set zs. cmp b y = Inr False"
      using ge Cons.prems(2) by simp
    then show ?thesis using ge zs by simp
  qed
qed

lemma insertion_sort_correct:
  assumes total: "\<And>a b. a \<in> A \<Longrightarrow> b \<in> A \<Longrightarrow> \<not> isl (cmp a b)"
    and irrefl: "\<And>a. a \<in> A \<Longrightarrow> cmp a a \<noteq> Inr True"
    and trans: "\<And>a b c. a \<in> A \<Longrightarrow> b \<in> A \<Longrightarrow> c \<in> A \<Longrightarrow>
                  cmp a b = Inr True \<Longrightarrow> cmp b c = Inr True \<Longrightarrow> cmp a c = Inr True"
  shows "set xs \<subseteq> A \<Longrightarrow>
         \<exists>ys. insertion_sort cmp xs = Inr ys \<and> mset ys = mset xs \<and>
              sorted_wrt (\<lambda>a b. cmp b a = Inr False) ys"
proof (induction xs)
  case Nil
  show ?case by simp
next
  case (Cons x xs)
  have x: "x \<in> A" and xs: "set xs \<subseteq> A" using Cons.prems by simp_all
  from Cons.IH [OF xs]
  obtain ys where ys: "insertion_sort cmp xs = Inr ys" "mset ys = mset xs"
    "sorted_wrt (\<lambda>a b. cmp b a = Inr False) ys" by blast
  have "set_mset (mset ys) = set_mset (mset xs)" using ys(2) by simp
  then have sub: "set ys \<subseteq> A" using xs by simp
  from insert_sorted_correct [of A cmp x ys, OF total irrefl trans x sub ys(3)]
  show ?case using ys by auto
qed

lemma insertion_sort_meets_contract: "meets_sort_contract insertion_sort"
  unfolding meets_sort_contract_def
proof (intro allI impI)
  fix cmp :: "'a \<Rightarrow> 'a \<Rightarrow> error + bool" and xs :: "'a list"
  assume total: "\<forall>x\<in>set xs. \<forall>y\<in>set xs. \<not> isl (cmp x y)"
    and swo: "strict_weak_order_on (set xs) (\<lambda>x y. cmp x y = Inr True)"
  show "\<exists>ys. insertion_sort cmp xs = Inr ys \<and> mset ys = mset xs \<and>
             sorted_wrt (\<lambda>x y. cmp y x = Inr False) ys"
  proof (rule insertion_sort_correct [of "set xs" cmp xs])
    show "\<not> isl (cmp a b)" if "a \<in> set xs" "b \<in> set xs" for a b
      using total that by blast
    show "cmp a a \<noteq> Inr True" if "a \<in> set xs" for a
      using swo that unfolding strict_weak_order_on_def by blast
    show "cmp a c = Inr True"
      if "a \<in> set xs" "b \<in> set xs" "c \<in> set xs" "cmp a b = Inr True" "cmp b c = Inr True"
      for a b c
      using swo that unfolding strict_weak_order_on_def by blast
  qed simp
qed

lemma theta_match:
  "length a = length b \<Longrightarrow>
   theta fp a b =
     Inr (facos fp (fdiv fp (dot_loop fp (zip a b) (fzero fp))
            (fmul fp (fsqrt fp (dot_loop fp (zip a a) (fzero fp)))
                     (fsqrt fp (dot_loop fp (zip b b) (fzero fp))))))"
  by (simp add: theta_def assert_compatible_def dot_def norm_dvec_def)

lemma set_pairwise_elts:
  "p \<in> set (pairwise_elts vecs) \<Longrightarrow> fst p \<in> set vecs \<and> snd p \<in> set vecs"
proof (induction vecs)
  case Nil
  then show ?case by (simp add: pairwise_elts_Nil)
next
  case (Cons x xs)
  from Cons.prems have "p \<in> Pair x ` set xs \<or> p \<in> set (pairwise_elts xs)"
    by (simp add: pairwise_elts_Cons)
  then show ?case
  proof
    assume "p \<in> Pair x ` set xs"
    then show ?thesis by auto
  next
    assume "p \<in> set (pairwise_elts xs)"
    then show ?thesis using Cons.IH by simp
  qed
qed

lemma theta_defined:
  assumes "same_dimension vecs" and "p \<in> set (pairwise_elts vecs)"
  shows "\<exists>t. theta fp (fst p) (snd p) = Inr t \<and> t \<in> angles fp vecs"
proof -
  have "fst p \<in> set vecs" and "snd p \<in> set vecs"
    using set_pairwise_elts [OF assms(2)] by simp_all
  then have "length (fst p) = length (snd p)"
    using assms(1) unfolding same_dimension_def by blast
  from theta_match [OF this, of fp]
  obtain t where t: "theta fp (fst p) (snd p) = Inr t" ..
  have "\<exists>p\<in>set (pairwise_elts vecs). theta fp (fst p) (snd p) = Inr t"
    using assms(2) t by (rule bexI [rotated])
  then have "t \<in> angles fp vecs"
    by (simp add: angles_def)
  then show ?thesis using t by simp
qed

text \<open>
  Claim C1, amended. For an input whose vectors all have the same size and whose angles are
  ordered (for doubles: none of them is not-a-number), \<^verbatim>\<open>theta_sort\<close> returns a reordering of
  the pairs of \<^verbatim>\<open>pairwise_elts\<close> in which every pair has an angle and the angles are
  non-decreasing from the first pair to the last. This holds for every \<^verbatim>\<open>std::sort\<close> that keeps
  the standard's contract.
\<close>

theorem theta_sort_sorted_permutation:
  assumes contract: "meets_sort_contract srt"
    and dim: "same_dimension vecs"
    and ordered: "ordered_angles fp vecs"
  shows "\<exists>ys. theta_sort fp srt vecs = Inr ys \<and> mset ys = mset (pairwise_elts vecs) \<and>
              nondecreasing_angles fp ys"
proof -
  have order: "strict_weak_order_on (angles fp vecs) (fless fp)"
    and le: "\<And>a b. a \<in> angles fp vecs \<Longrightarrow> b \<in> angles fp vecs \<Longrightarrow>
                 fle fp a b = (\<not> fless fp b a)"
    using ordered unfolding ordered_angles_def by blast+
  let ?xs = "pairwise_elts vecs"
  let ?A = "angles fp vecs"
  let ?cmp = "theta_less fp"
  define ang where "ang p = (case theta fp (fst p) (snd p) of Inr t \<Rightarrow> t)" for p
  have ang: "theta fp (fst p) (snd p) = Inr (ang p) \<and> ang p \<in> ?A" if "p \<in> set ?xs" for p
    using theta_defined [OF dim that, of fp] by (auto simp: ang_def)
  have cmp: "?cmp p q = Inr (fless fp (ang p) (ang q))" if "p \<in> set ?xs" "q \<in> set ?xs" for p q
    using ang [OF that(1)] ang [OF that(2)] by (simp add: theta_less_def)
  have irr: "\<not> fless fp t t" if "t \<in> ?A" for t
    using order that unfolding strict_weak_order_on_def by blast
  have tr: "fless fp s u" if "s \<in> ?A" "t \<in> ?A" "u \<in> ?A" "fless fp s t" "fless fp t u" for s t u
    using order that unfolding strict_weak_order_on_def by blast
  have eq: "\<not> fless fp s u \<and> \<not> fless fp u s"
    if "s \<in> ?A" "t \<in> ?A" "u \<in> ?A" "\<not> fless fp s t \<and> \<not> fless fp t s"
      "\<not> fless fp t u \<and> \<not> fless fp u t" for s t u
    using order that unfolding strict_weak_order_on_def by blast
  have total: "\<forall>p\<in>set ?xs. \<forall>q\<in>set ?xs. \<not> isl (?cmp p q)"
    by (simp add: cmp)
  have s1: "\<forall>p\<in>set ?xs. \<not> ?cmp p p = Inr True"
  proof
    fix p assume "p \<in> set ?xs"
    then show "\<not> ?cmp p p = Inr True"
      using irr [of "ang p"] ang [of p] by (simp add: cmp)
  qed
  have s2: "\<forall>p\<in>set ?xs. \<forall>q\<in>set ?xs. \<forall>r\<in>set ?xs.
              ?cmp p q = Inr True \<longrightarrow> ?cmp q r = Inr True \<longrightarrow> ?cmp p r = Inr True"
  proof (intro ballI impI)
    fix p q r assume "p \<in> set ?xs" "q \<in> set ?xs" "r \<in> set ?xs"
      and "?cmp p q = Inr True" "?cmp q r = Inr True"
    then show "?cmp p r = Inr True"
      using tr [of "ang p" "ang q" "ang r"] ang [of p] ang [of q] ang [of r] by (simp add: cmp)
  qed
  have s3: "\<forall>p\<in>set ?xs. \<forall>q\<in>set ?xs. \<forall>r\<in>set ?xs.
              \<not> ?cmp p q = Inr True \<and> \<not> ?cmp q p = Inr True \<longrightarrow>
              \<not> ?cmp q r = Inr True \<and> \<not> ?cmp r q = Inr True \<longrightarrow>
              \<not> ?cmp p r = Inr True \<and> \<not> ?cmp r p = Inr True"
  proof (intro ballI impI)
    fix p q r assume "p \<in> set ?xs" "q \<in> set ?xs" "r \<in> set ?xs"
      and "\<not> ?cmp p q = Inr True \<and> \<not> ?cmp q p = Inr True"
      and "\<not> ?cmp q r = Inr True \<and> \<not> ?cmp r q = Inr True"
    then show "\<not> ?cmp p r = Inr True \<and> \<not> ?cmp r p = Inr True"
      using eq [of "ang p" "ang q" "ang r"] ang [of p] ang [of q] ang [of r] by (simp add: cmp)
  qed
  have swo: "strict_weak_order_on (set ?xs) (\<lambda>p q. ?cmp p q = Inr True)"
    unfolding strict_weak_order_on_def using s1 s2 s3 by (intro conjI)
  from contract [unfolded meets_sort_contract_def, THEN spec, THEN spec, THEN mp, THEN mp, OF total swo]
  obtain ys where ys: "srt ?cmp ?xs = Inr ys" "mset ys = mset ?xs"
    "sorted_wrt (\<lambda>p q. ?cmp q p = Inr False) ys"
    by blast
  have "set_mset (mset ys) = set_mset (mset ?xs)" using ys(2) by simp
  then have set: "set ys = set ?xs" by simp
  have "sorted_wrt (\<lambda>p q. \<exists>tp tq. theta fp (fst p) (snd p) = Inr tp \<and>
           theta fp (fst q) (snd q) = Inr tq \<and> fle fp tp tq) ys"
  proof (rule sorted_wrt_mono_rel [OF _ ys(3)])
    fix p q assume "p \<in> set ys" "q \<in> set ys" "?cmp q p = Inr False"
    then have "\<not> fless fp (ang q) (ang p)" and "p \<in> set ?xs" and "q \<in> set ?xs"
      using cmp [of q p] set by auto
    then show "\<exists>tp tq. theta fp (fst p) (snd p) = Inr tp \<and>
           theta fp (fst q) (snd q) = Inr tq \<and> fle fp tp tq"
      using ang [of p] ang [of q] le [of "ang p" "ang q"] by auto
  qed
  then have "nondecreasing_angles fp ys"
    unfolding nondecreasing_angles_def by (rule successively_if_sorted_wrt)
  then show ?thesis using ys by (simp add: theta_sort_def)
qed

section \<open>Ingestion: proofs\<close>

lemma getline_None: "getline input = None \<longleftrightarrow> input = []"
  by (simp add: getline_def)

lemma lines_of_Nil: "lines_of [] = []"
  by (simp add: lines_of.simps getline_def)

lemma lines_of_Some: "getline input = Some (line, rest) \<Longrightarrow> lines_of input = line # lines_of rest"
  by (subst lines_of.simps) simp

lemma unread_after_Some:
  "getline input = Some (line, rest) \<Longrightarrow> unread_after (Suc n) input = unread_after n rest"
  by simp

lemma first_mismatch_le: "first_mismatch vs \<le> length vs"
  unfolding first_mismatch_def by (rule length_takeWhile_le)

lemma first_mismatch_before:
  assumes "j < first_mismatch vs"
  shows "length (vs ! j) = length (vs ! 0)"
proof -
  let ?P = "\<lambda>v. length v = length (vs ! 0)"
  have j: "j < length (takeWhile ?P vs)" using assms by (simp add: first_mismatch_def)
  then have "takeWhile ?P vs ! j \<in> set (takeWhile ?P vs)" by (rule nth_mem)
  then have "?P (takeWhile ?P vs ! j)" by (rule set_takeWhileD [THEN conjunct2])
  then show ?thesis using j by (simp add: takeWhile_nth)
qed

lemma first_mismatch_at:
  assumes "first_mismatch vs < length vs"
  shows "length (vs ! first_mismatch vs) \<noteq> length (vs ! 0)" and "0 < first_mismatch vs"
proof -
  show ne: "length (vs ! first_mismatch vs) \<noteq> length (vs ! 0)"
    using assms nth_length_takeWhile [of "\<lambda>v. length v = length (vs ! 0)" vs]
    by (simp add: first_mismatch_def)
  show "0 < first_mismatch vs"
  proof (rule ccontr)
    assume "\<not> 0 < first_mismatch vs"
    then have "first_mismatch vs = 0" by simp
    then show False using ne by simp
  qed
qed

lemma first_mismatch_eqI:
  assumes "k \<le> length vs" and "\<And>j. j < k \<Longrightarrow> length (vs ! j) = length (vs ! 0)"
    and "k < length vs \<Longrightarrow> length (vs ! k) \<noteq> length (vs ! 0)"
  shows "first_mismatch vs = k"
proof -
  have "takeWhile (\<lambda>v. length v = length (vs ! 0)) vs = take k vs"
  proof (rule takeWhile_eq_take_P_nth)
    show "length (vs ! i) = length (vs ! 0)" if "i < k" for i
      using that by (rule assms(2))
    show "length (vs ! k) \<noteq> length (vs ! 0)" if "k < length vs"
      using that by (rule assms(3))
  qed
  then show ?thesis using assms(1) by (simp add: first_mismatch_def)
qed

lemma ingest_loop_result:
  assumes "\<forall>v\<in>set out. length v = length (out ! 0)"
  shows "ingest_loop get input out =
     (let vs = out @ map (read_doubles get) (lines_of input); k = first_mismatch vs in
      if k = length vs then (Inr vs, [])
      else (Inl (runtime_error ''mismatched input vector dimensions''),
            unread_after (Suc (k - length out)) input))"
  using assms
proof (induction get input out rule: ingest_loop.induct)
  case (1 get input out)
  show ?case
  proof (cases "getline input")
    case None
    then have "input = []" by (simp add: getline_None)
    moreover have "first_mismatch out = length out"
    proof (rule first_mismatch_eqI)
      show "length (out ! j) = length (out ! 0)" if "j < length out" for j
        using "1.prems" that nth_mem by blast
    qed simp_all
    ultimately show ?thesis
      by (subst ingest_loop.simps) (simp add: lines_of_Nil getline_def)
  next
    case (Some lr)
    obtain line rest where lr: "lr = (line, rest)" by (cases lr)
    have gl: "getline input = Some (line, rest)" using Some lr by simp
    define v where "v = read_doubles get line"
    define ws where "ws = map (read_doubles get) (lines_of rest)"
    have lines: "out @ map (read_doubles get) (lines_of input) = out @ v # ws"
      by (simp add: lines_of_Some [OF gl] v_def ws_def)
    show ?thesis
    proof (cases "out \<noteq> [] \<and> length (out ! 0) \<noteq> length v")
      case True
      have "first_mismatch (out @ v # ws) = length out"
      proof (rule first_mismatch_eqI)
        show "length out \<le> length (out @ v # ws)" by simp
        show "length ((out @ v # ws) ! j) = length ((out @ v # ws) ! 0)" if "j < length out" for j
        proof -
          have "length (out ! j) = length (out ! 0)"
            using "1.prems" that nth_mem by blast
          moreover have "out \<noteq> []" using that by auto
          ultimately show ?thesis using that by (simp add: nth_append)
        qed
        show "length ((out @ v # ws) ! length out) \<noteq> length ((out @ v # ws) ! 0)"
          using True by (simp add: nth_append)
      qed
      then show ?thesis
        using True gl unfolding lines
        by (subst ingest_loop.simps) (simp add: v_def Let_def)
    next
      case False
      have cons: "\<forall>u\<in>set (out @ [v]). length u = length ((out @ [v]) ! 0)"
      proof (cases out)
        case Nil
        then show ?thesis by simp
      next
        case (Cons o1 os)
        have h0: "out ! 0 = o1" and h1: "(out @ [v]) ! 0 = o1" using Cons by simp_all
        have a: "length v = length o1" using False Cons by simp
        have b: "\<forall>u\<in>set out. length u = length o1" using "1.prems" unfolding h0 .
        show ?thesis
          unfolding h1
        proof
          fix u assume "u \<in> set (out @ [v])"
          then have "u \<in> set out \<or> u = v" by auto
          then show "length u = length o1" using a b by blast
        qed
      qed
      have IH: "ingest_loop get rest (out @ [v]) =
        (let vs = (out @ [v]) @ map (read_doubles get) (lines_of rest); k = first_mismatch vs in
         if k = length vs then (Inr vs, [])
         else (Inl (runtime_error ''mismatched input vector dimensions''),
               unread_after (Suc (k - length (out @ [v]))) rest))"
        by (rule "1.IH" [OF gl refl v_def False cons])
      have ge: "length out < first_mismatch (out @ v # ws)"
      proof (rule ccontr)
        assume "\<not> length out < first_mismatch (out @ v # ws)"
        then have le: "first_mismatch (out @ v # ws) \<le> length out" by simp
        then have lt: "first_mismatch (out @ v # ws) < length (out @ v # ws)" by simp
        have "first_mismatch (out @ v # ws) < length (out @ [v])" using le by simp
        then have "length ((out @ [v]) ! first_mismatch (out @ v # ws)) = length ((out @ [v]) ! 0)"
          using cons nth_mem by blast
        moreover have "(out @ v # ws) ! first_mismatch (out @ v # ws) =
                       (out @ [v]) ! first_mismatch (out @ v # ws)"
          using le by (simp add: nth_append)
        moreover have "(out @ v # ws) ! 0 = (out @ [v]) ! 0"
          by (simp add: nth_append)
        ultimately show False using first_mismatch_at(1) [OF lt] by simp
      qed
      have e1: "(out @ [v]) @ map (read_doubles get) (lines_of rest) = out @ v # ws"
        by (simp add: ws_def)
      have e2: "unread_after (Suc (first_mismatch (out @ v # ws) - length out)) input =
                unread_after (Suc (first_mismatch (out @ v # ws) - length (out @ [v]))) rest"
      proof -
        have "first_mismatch (out @ v # ws) - length out =
              Suc (first_mismatch (out @ v # ws) - length (out @ [v]))"
          using ge by simp
        then show ?thesis
          by (simp only: unread_after_Some [OF gl])
      qed
      have step: "ingest_loop get input out = ingest_loop get rest (out @ [v])"
        using False gl by (subst ingest_loop.simps) (auto simp: v_def Let_def)
      show ?thesis
        unfolding lines step IH e1 Let_def e2 by (rule refl)
    qed
  qed
qed

lemma ingest_dvecs_result:
  "ingest_dvecs get input =
     (let vs = map (read_doubles get) (lines_of input); k = first_mismatch vs in
      if k = length vs then (Inr vs, [])
      else (Inl (runtime_error ''mismatched input vector dimensions''),
            unread_after (Suc k) input))"
  unfolding ingest_dvecs_def using ingest_loop_result [of "[]" get input] by (simp add: Let_def)

text \<open>
  Claim C3. On every input stream \<^verbatim>\<open>ingest_dvecs\<close> does one of two things. Either it returns,
  with the stream read to its end, the vectors of all lines in the order of the lines, and all
  of them have the size of the first. Or a line \<open>k > 0\<close> is the first whose vector differs in
  size from the vector of line \<open>0\<close>, and it throws the \<^verbatim>\<open>runtime_error\<close> "mismatched input vector
  dimensions" with the stream read up to and including line \<open>k\<close>, that is, as soon as that
  line is parsed. A sequence it returns never holds vectors of different sizes.
\<close>

theorem ingest_dvecs_uniform_or_error:
  "((\<exists>vs. ingest_dvecs get input = (Inr vs, []) \<and>
         vs = map (read_doubles get) (lines_of input) \<and>
         (\<forall>v\<in>set vs. length v = length (vs ! 0)))
    \<or> (\<exists>k. 0 < k \<and> k < length (lines_of input) \<and>
         ingest_dvecs get input =
           (Inl (runtime_error ''mismatched input vector dimensions''),
            unread_after (Suc k) input) \<and>
         length (read_doubles get (lines_of input ! k)) \<noteq>
           length (read_doubles get (lines_of input ! 0)) \<and>
         (\<forall>j<k. length (read_doubles get (lines_of input ! j)) =
                 length (read_doubles get (lines_of input ! 0)))))
   \<and> (\<forall>ws rest. ingest_dvecs get input = (Inr ws, rest) \<longrightarrow> same_dimension ws)"
proof -
  define vs where "vs = map (read_doubles get) (lines_of input)"
  define k where "k = first_mismatch vs"
  have res: "ingest_dvecs get input =
      (if k = length vs then (Inr vs, [])
       else (Inl (runtime_error ''mismatched input vector dimensions''),
             unread_after (Suc k) input))"
    unfolding k_def vs_def using ingest_dvecs_result [of get input] by (simp add: Let_def)
  have le: "k \<le> length vs" unfolding k_def by (rule first_mismatch_le)
  have before: "length (vs ! j) = length (vs ! 0)" if "j < k" for j
    using that unfolding k_def by (rule first_mismatch_before)
  show ?thesis
  proof (cases "k = length vs")
    case True
    have uniform: "\<forall>v\<in>set vs. length v = length (vs ! 0)"
    proof
      fix v assume "v \<in> set vs"
      then obtain j where "j < length vs" and "vs ! j = v" by (auto simp: in_set_conv_nth)
      then show "length v = length (vs ! 0)" using before [of j] True by simp
    qed
    then have "same_dimension vs" unfolding same_dimension_def by simp
    then show ?thesis using True res uniform vs_def by simp
  next
    case False
    then have lt: "k < length vs" using le by simp
    then have lt': "k < length (lines_of input)" by (simp add: vs_def)
    have pos: "0 < k" and ne: "length (vs ! k) \<noteq> length (vs ! 0)"
      using first_mismatch_at [of vs] lt unfolding k_def by simp_all
    have nth: "vs ! j = read_doubles get (lines_of input ! j)" if "j \<le> k" for j
      using that lt' by (simp add: vs_def)
    have "\<exists>k. 0 < k \<and> k < length (lines_of input) \<and>
         ingest_dvecs get input =
           (Inl (runtime_error ''mismatched input vector dimensions''),
            unread_after (Suc k) input) \<and>
         length (read_doubles get (lines_of input ! k)) \<noteq>
           length (read_doubles get (lines_of input ! 0)) \<and>
         (\<forall>j<k. length (read_doubles get (lines_of input ! j)) =
                 length (read_doubles get (lines_of input ! 0)))"
    proof (intro exI [of _ k] conjI allI impI)
      show "0 < k" by (rule pos)
      show "k < length (lines_of input)" by (rule lt')
      show "ingest_dvecs get input =
           (Inl (runtime_error ''mismatched input vector dimensions''),
            unread_after (Suc k) input)"
        using res False by simp
      show "length (read_doubles get (lines_of input ! k)) \<noteq>
           length (read_doubles get (lines_of input ! 0))"
        using ne nth [of k] nth [of 0] by simp
      show "length (read_doubles get (lines_of input ! j)) =
            length (read_doubles get (lines_of input ! 0))" if "j < k" for j
        using before [OF that] nth [of j] nth [of 0] that by simp
    qed
    then show ?thesis using res False by simp
  qed
qed

lemma lines_of_example1: "lines_of ''1 2 3\<newline>4 5 6'' = [''1 2 3'', ''4 5 6'']"
  by (simp add: lines_of.simps getline_def)

lemma read_doubles_example1:
  "read_doubles get_unsigned ''1 2 3'' = [1, 2, 3]"
  "read_doubles get_unsigned ''4 5 6'' = [4, 5, 6]"
  by (simp_all add: read_doubles.simps extract_double_def get_unsigned_def is_digit_def
      isspace_def)

lemma lines_of_example2: "lines_of ''1 2\<newline>3\<newline>4 5'' = [''1 2'', ''3'', ''4 5'']"
  by (simp add: lines_of.simps getline_def)

lemma unread_after_example2: "unread_after (Suc (Suc 0)) ''1 2\<newline>3\<newline>4 5'' = ''4 5''"
  by (simp add: getline_def)

lemma read_doubles_example2:
  "read_doubles get_unsigned ''1 2'' = [1, 2]"
  "read_doubles get_unsigned ''3'' = [3]"
  "read_doubles get_unsigned ''4 5'' = [4, 5]"
  by (simp_all add: read_doubles.simps extract_double_def get_unsigned_def is_digit_def
      isspace_def)

theorem ingest_dvecs_uniform_or_error_witness:
  "ingest_dvecs get_unsigned ''1 2 3\<newline>4 5 6'' = (Inr [[1, 2, 3], [4, 5, 6]], [])
   \<and> ingest_dvecs get_unsigned ''1 2\<newline>3\<newline>4 5'' =
       (Inl (runtime_error ''mismatched input vector dimensions''), ''4 5'')"
proof
  let ?in1 = "''1 2 3\<newline>4 5 6''"
  let ?in2 = "''1 2\<newline>3\<newline>4 5''"
  let ?err = "Inl (runtime_error ''mismatched input vector dimensions'')"
  have vs1: "map (read_doubles get_unsigned) (lines_of ?in1) = [[1, 2, 3], [4, 5, 6]]"
    by (simp add: lines_of_example1 read_doubles_example1)
  have vs2: "map (read_doubles get_unsigned) (lines_of ?in2) = [[1, 2], [3], [4, 5]]"
    by (simp add: lines_of_example2 read_doubles_example2)
  from ingest_dvecs_uniform_or_error [of get_unsigned ?in1]
  consider "ingest_dvecs get_unsigned ?in1 = (Inr (map (read_doubles get_unsigned) (lines_of ?in1)), [])"
    | k where "0 < k" "k < length (lines_of ?in1)"
      "length (read_doubles get_unsigned (lines_of ?in1 ! k)) \<noteq>
       length (read_doubles get_unsigned (lines_of ?in1 ! 0))"
    by blast
  then show "ingest_dvecs get_unsigned ?in1 = (Inr [[1, 2, 3], [4, 5, 6]], [])"
  proof cases
    case 1
    then show ?thesis by (simp only: vs1)
  next
    case 2
    from 2(1,2) have "k = Suc 0" by (simp add: lines_of_example1)
    then show ?thesis using 2(3) by (simp add: lines_of_example1 read_doubles_example1)
  qed
  from ingest_dvecs_uniform_or_error [of get_unsigned ?in2]
  consider "\<forall>v\<in>set (map (read_doubles get_unsigned) (lines_of ?in2)).
              length v = length (map (read_doubles get_unsigned) (lines_of ?in2) ! 0)"
    | k where "0 < k" "k < length (lines_of ?in2)"
      "ingest_dvecs get_unsigned ?in2 = (?err, unread_after (Suc k) ?in2)"
      "\<forall>j<k. length (read_doubles get_unsigned (lines_of ?in2 ! j)) =
              length (read_doubles get_unsigned (lines_of ?in2 ! 0))"
    by blast
  then show "ingest_dvecs get_unsigned ?in2 = (?err, ''4 5'')"
  proof cases
    case 1
    then show ?thesis unfolding vs2 by simp
  next
    case 2
    have "k = Suc 0"
    proof (rule ccontr)
      assume "k \<noteq> Suc 0"
      then have "Suc 0 < k" using 2(1) by simp
      then have "length (read_doubles get_unsigned (lines_of ?in2 ! Suc 0)) =
                 length (read_doubles get_unsigned (lines_of ?in2 ! 0))"
        using 2(4) by blast
      then show False by (simp add: lines_of_example2 read_doubles_example2)
    qed
    then show ?thesis using 2(3) by (simp only: unread_after_example2)
  qed
qed

lemma read_doubles_no_number:
  "get (dropWhile isspace line) = None \<Longrightarrow> read_doubles get line = []"
  by (subst read_doubles.simps) (simp add: extract_double_def Let_def)

lemma read_doubles_blank:
  assumes "\<forall>c\<in>set line. isspace c"
  shows "read_doubles get line = []"
proof -
  have "dropWhile isspace line = []" using assms by (simp add: dropWhile_eq_Nil_conv)
  then show ?thesis by (subst read_doubles.simps) (simp add: extract_double_def Let_def)
qed

lemma ingest_dvecs_error_at:
  assumes k: "k < length (lines_of input)"
    and ne: "length (read_doubles get (lines_of input ! k)) \<noteq>
             length (read_doubles get (lines_of input ! 0))"
    and eq: "\<And>j. j < k \<Longrightarrow> length (read_doubles get (lines_of input ! j)) =
                              length (read_doubles get (lines_of input ! 0))"
  shows "ingest_dvecs get input =
           (Inl (runtime_error ''mismatched input vector dimensions''),
            unread_after (Suc k) input)"
proof -
  define vs where "vs = map (read_doubles get) (lines_of input)"
  have nth: "vs ! j = read_doubles get (lines_of input ! j)" if "j \<le> k" for j
    using that k by (simp add: vs_def)
  have "first_mismatch vs = k"
  proof (rule first_mismatch_eqI)
    show "k \<le> length vs" using k by (simp add: vs_def)
    show "length (vs ! j) = length (vs ! 0)" if "j < k" for j
      using eq [OF that] nth [of j] nth [of 0] that by simp
    show "length (vs ! k) \<noteq> length (vs ! 0)"
      using ne nth [of k] nth [of 0] by simp
  qed
  moreover have "k \<noteq> length vs" using k by (simp add: vs_def)
  ultimately show ?thesis
    using ingest_dvecs_result [of get input] by (simp add: Let_def vs_def)
qed

lemma ingest_dvecs_all_empty:
  assumes "\<forall>l\<in>set (lines_of input). read_doubles get l = []"
  shows "ingest_dvecs get input = (Inr (replicate (length (lines_of input)) []), [])"
proof -
  define vs where "vs = map (read_doubles get) (lines_of input)"
  have vs: "vs = replicate (length (lines_of input)) []"
    unfolding vs_def using assms by (simp add: map_replicate_const [symmetric] cong: map_cong)
  have "first_mismatch vs = length vs"
  proof (rule first_mismatch_eqI)
    show "length (vs ! j) = length (vs ! 0)" if "j < length vs" for j
    proof -
      have j: "j < length (lines_of input)" using that by (simp add: vs)
      then have "0 < length (lines_of input)" by (rule le_less_trans [OF le0])
      then show ?thesis using j by (simp add: vs)
    qed
  qed simp_all
  then show ?thesis
    using ingest_dvecs_result [of get input] by (simp add: Let_def vs_def [symmetric] vs)
qed

text \<open>
  Claim C10. A line without a number is not skipped. The vector of a line that is blank (white
  space only), or on which no numeric literal starts after the leading white space, is the
  empty vector. When the lines before line \<open>k > 0\<close> all give the empty vector and line \<open>k\<close> holds
  numbers, the dimension was fixed at 0 and line \<open>k\<close> raises the dimension error; when the
  first line holds numbers, the lines before line \<open>k\<close> agree with it and line \<open>k\<close> gives the
  empty vector, line \<open>k\<close> itself raises the error. When every line gives the empty vector the
  result holds one empty vector for each line.
\<close>

theorem ingest_keeps_numberless_lines:
  "((\<forall>c\<in>set line. isspace c) \<longrightarrow> read_doubles get line = [])
   \<and> (get (dropWhile isspace line) = None \<longrightarrow> read_doubles get line = [])
   \<and> (0 < k \<and> k < length (lines_of input) \<and>
        (\<forall>j<k. read_doubles get (lines_of input ! j) = []) \<and>
        read_doubles get (lines_of input ! k) \<noteq> [] \<longrightarrow>
        ingest_dvecs get input =
          (Inl (runtime_error ''mismatched input vector dimensions''),
           unread_after (Suc k) input))
   \<and> (0 < k \<and> k < length (lines_of input) \<and>
        read_doubles get (lines_of input ! 0) \<noteq> [] \<and>
        (\<forall>j<k. length (read_doubles get (lines_of input ! j)) =
                length (read_doubles get (lines_of input ! 0))) \<and>
        read_doubles get (lines_of input ! k) = [] \<longrightarrow>
        ingest_dvecs get input =
          (Inl (runtime_error ''mismatched input vector dimensions''),
           unread_after (Suc k) input))
   \<and> ((\<forall>l\<in>set (lines_of input). read_doubles get l = []) \<longrightarrow>
        ingest_dvecs get input = (Inr (replicate (length (lines_of input)) []), []))"
proof (intro conjI impI)
  assume "\<forall>c\<in>set line. isspace c"
  then show "read_doubles get line = []" by (rule read_doubles_blank)
next
  assume "get (dropWhile isspace line) = None"
  then show "read_doubles get line = []" by (rule read_doubles_no_number)
next
  assume a: "0 < k \<and> k < length (lines_of input) \<and>
        (\<forall>j<k. read_doubles get (lines_of input ! j) = []) \<and>
        read_doubles get (lines_of input ! k) \<noteq> []"
  then have first: "read_doubles get (lines_of input ! 0) = []" by blast
  show "ingest_dvecs get input =
          (Inl (runtime_error ''mismatched input vector dimensions''),
           unread_after (Suc k) input)"
  proof (rule ingest_dvecs_error_at)
    show "k < length (lines_of input)" using a by blast
    show "length (read_doubles get (lines_of input ! k)) \<noteq>
          length (read_doubles get (lines_of input ! 0))"
      using a first by simp
    show "length (read_doubles get (lines_of input ! j)) =
          length (read_doubles get (lines_of input ! 0))" if "j < k" for j
    proof -
      have "read_doubles get (lines_of input ! j) = []" using a that by blast
      then show ?thesis using first by simp
    qed
  qed
next
  assume a: "0 < k \<and> k < length (lines_of input) \<and>
        read_doubles get (lines_of input ! 0) \<noteq> [] \<and>
        (\<forall>j<k. length (read_doubles get (lines_of input ! j)) =
                length (read_doubles get (lines_of input ! 0))) \<and>
        read_doubles get (lines_of input ! k) = []"
  show "ingest_dvecs get input =
          (Inl (runtime_error ''mismatched input vector dimensions''),
           unread_after (Suc k) input)"
  proof (rule ingest_dvecs_error_at)
    show "k < length (lines_of input)" using a by blast
    have "read_doubles get (lines_of input ! k) = []"
      and "read_doubles get (lines_of input ! 0) \<noteq> []" using a by blast+
    then show "length (read_doubles get (lines_of input ! k)) \<noteq>
          length (read_doubles get (lines_of input ! 0))"
      by simp
    show "length (read_doubles get (lines_of input ! j)) =
          length (read_doubles get (lines_of input ! 0))" if "j < k" for j
      using a that by blast
  qed
next
  assume "\<forall>l\<in>set (lines_of input). read_doubles get l = []"
  then show "ingest_dvecs get input = (Inr (replicate (length (lines_of input)) []), [])"
    by (rule ingest_dvecs_all_empty)
qed

lemma lines_of_example3:
  "lines_of ''\<newline>1 2'' = [[], ''1 2'']"
  "lines_of ''1 2\<newline>\<newline>3 4'' = [''1 2'', [], ''3 4'']"
  "lines_of ''\<newline>\<newline>'' = [[], []]"
  by (simp_all add: lines_of.simps getline_def)

lemma read_doubles_example3:
  "read_doubles get_unsigned [] = []"
  by (simp add: read_doubles.simps extract_double_def)

theorem ingest_keeps_numberless_lines_witness:
  "read_doubles get_unsigned ''  '' = []
   \<and> read_doubles get_unsigned ''x 1 2'' = []
   \<and> ingest_dvecs get_unsigned ''\<newline>1 2'' =
       (Inl (runtime_error ''mismatched input vector dimensions''), [])
   \<and> ingest_dvecs get_unsigned ''1 2\<newline>\<newline>3 4'' =
       (Inl (runtime_error ''mismatched input vector dimensions''), ''3 4'')
   \<and> ingest_dvecs get_unsigned ''\<newline>\<newline>'' = (Inr [[], []], [])"
proof (intro conjI)
  show "read_doubles get_unsigned ''  '' = []"
    using ingest_keeps_numberless_lines [where line = "''  ''" and get = get_unsigned]
    by (simp add: isspace_def)
  show "read_doubles get_unsigned ''x 1 2'' = []"
    using ingest_keeps_numberless_lines [where line = "''x 1 2''" and get = get_unsigned]
    by (simp add: isspace_def get_unsigned_def is_digit_def)
  show "ingest_dvecs get_unsigned ''\<newline>1 2'' =
       (Inl (runtime_error ''mismatched input vector dimensions''), [])"
    using ingest_keeps_numberless_lines [where get = get_unsigned and k = "Suc 0"
        and input = "''\<newline>1 2''"]
    by (simp add: lines_of_example3 getline_def read_doubles_example2 read_doubles_example3)
  show "ingest_dvecs get_unsigned ''1 2\<newline>\<newline>3 4'' =
       (Inl (runtime_error ''mismatched input vector dimensions''), ''3 4'')"
    using ingest_keeps_numberless_lines [where get = get_unsigned and k = "Suc 0"
        and input = "''1 2\<newline>\<newline>3 4''"]
    by (simp add: lines_of_example3 getline_def read_doubles_example2 read_doubles_example3)
  show "ingest_dvecs get_unsigned ''\<newline>\<newline>'' = (Inr [[], []], [])"
    using ingest_keeps_numberless_lines [where get = get_unsigned
        and input = "''\<newline>\<newline>''"]
    by (simp add: lines_of_example3 read_doubles_example3 numeral_2_eq_2)
qed

section \<open>Double precision: proofs\<close>

lemma rne_unique:
  assumes "of_int k - 1 / 2 < x" and "x < of_int k + 1 / 2"
  shows "rne x = k"
proof (cases "of_int k \<le> x")
  case True
  then have "\<lfloor>x\<rfloor> = k" using assms(2) by (simp add: floor_eq_iff)
  then show ?thesis using assms(2) by (simp add: rne_def)
next
  case False
  then have f: "\<lfloor>x\<rfloor> = k - 1" using assms(1) by (simp add: floor_eq_iff)
  have "1 / 2 < x - of_int (k - 1)" using assms(1) by simp
  then show ?thesis unfolding rne_def f Let_def by simp
qed

lemma rne_of_int: "rne (of_int k) = k"
  by (rule rne_unique) simp_all

lemma round64_binade:
  fixes n :: nat
  assumes lo: "2 ^ n \<le> x" and hi: "x < 2 * 2 ^ n" and n: "n \<le> 1023"
    and m: "rne (x * 2 ^ 52 / 2 ^ n) = m" and fin: "of_int m * 2 ^ n / 2 ^ 52 < (2::real) ^ 1024"
  shows "round64 x = Num (of_int m * 2 ^ n / 2 ^ 52)"
proof -
  have pos: "0 < x" using lo by (rule less_le_trans [rotated]) simp
  have "\<lfloor>log 2 x\<rfloor> = int n"
  proof -
    have "2 powr real_of_int (int n) \<le> x \<and> x < 2 powr real_of_int (int n + 1)"
      using lo hi by (simp add: powr_realpow powr_add)
    then show ?thesis using pos by (simp add: floor_log_eq_powr_iff)
  qed
  then have e: "max \<lfloor>log 2 \<bar>x\<bar>\<rfloor> (- 1022) = int n" using pos by simp
  have q: "2 powr (of_int (int n) - 52) = (2::real) ^ n / 2 ^ 52"
    by (simp add: powr_diff powr_realpow)
  have mpos: "0 \<le> m"
  proof -
    have "0 \<le> x * 2 ^ 52 / 2 ^ n" using pos by simp
    then have "rne (x * 2 ^ 52 / 2 ^ n) \<ge> 0"
      by (auto simp: rne_def Let_def)
    then show ?thesis using m by simp
  qed
  have "x / (2 ^ n / 2 ^ 52) = x * 2 ^ 52 / 2 ^ n" by simp
  then have y: "real_of_int (rne (x / (2 ^ n / 2 ^ 52))) * (2 ^ n / 2 ^ 52) =
                real_of_int m * 2 ^ n / 2 ^ 52"
    using m by simp
  have "\<bar>of_int m * 2 ^ n / 2 ^ 52 :: real\<bar> = of_int m * 2 ^ n / 2 ^ 52"
    using mpos by simp
  then have "\<not> 2 ^ 1024 \<le> \<bar>of_int m * 2 ^ n / 2 ^ 52 :: real\<bar>"
    using fin by simp
  then show ?thesis
    unfolding round64_def e q Let_def y using pos by simp
qed

lemma round64_1: "round64 1 = Num 1"
proof -
  have "rne (1 * 2 ^ 52 / 2 ^ 0) = 4503599627370496"
    by (rule rne_unique) simp_all
  from round64_binade [of 0 1, OF _ _ _ this] show ?thesis by simp
qed

lemma round64_2: "round64 2 = Num 2"
proof -
  have "rne (2 * 2 ^ 52 / 2 ^ 1) = 4503599627370496"
    by (rule rne_unique) simp_all
  from round64_binade [of 1 2, OF _ _ _ this] show ?thesis by simp
qed

lemma round64_3: "round64 3 = Num 3"
proof -
  have "rne (3 * 2 ^ 52 / 2 ^ 1) = 6755399441055744"
    by (rule rne_unique) simp_all
  from round64_binade [of 1 3, OF _ _ _ this] show ?thesis by simp
qed

lemma sqrt3_bounds:
  "15600926743107923 / 9007199254740992 < sqrt 3" "sqrt 3 < 15600926743107925 / 9007199254740992"
proof -
  show "15600926743107923 / 9007199254740992 < sqrt 3"
    by (rule real_less_rsqrt) (simp add: power2_eq_square)
  show "sqrt 3 < 15600926743107925 / 9007199254740992"
    by (rule real_less_lsqrt) (simp_all add: power2_eq_square)
qed

lemma round64_sqrt3: "round64 (sqrt 3) = Num (7800463371553962 / 4503599627370496)"
proof -
  have "rne (sqrt 3 * 2 ^ 52 / 2 ^ 0) = 7800463371553962"
    using sqrt3_bounds by (intro rne_unique) simp_all
  moreover have "1 \<le> sqrt 3" by simp
  moreover have "sqrt 3 < 2" using sqrt3_bounds(2) by simp
  ultimately show ?thesis
    using round64_binade [of 0 "sqrt 3" 7800463371553962] by simp
qed

lemma round64_square:
  "round64 (7800463371553962 / 4503599627370496 * (7800463371553962 / 4503599627370496)) =
   Num (6755399441055743 / 2251799813685248)"
proof -
  let ?x = "7800463371553962 / 4503599627370496 * (7800463371553962 / 4503599627370496) :: real"
  have "rne (?x * 2 ^ 52 / 2 ^ 1) = 6755399441055743"
    by (rule rne_unique) simp_all
  from round64_binade [of 1 ?x, OF _ _ _ this] show ?thesis by simp
qed

lemma round64_quotient:
  "round64 (3 / (6755399441055743 / 2251799813685248)) =
   Num (4503599627370497 / 4503599627370496)"
proof -
  let ?x = "3 / (6755399441055743 / 2251799813685248) :: real"
  have "rne (?x * 2 ^ 52 / 2 ^ 0) = 4503599627370497"
    by (rule rne_unique) simp_all
  from round64_binade [of 0 ?x, OF _ _ _ this] show ?thesis by simp
qed

lemma dot_loop_exact_self_pos:
  assumes "\<exists>x\<in>set v. x \<noteq> (0::real)"
  shows "0 < dot_loop exact (zip v v) 0"
proof -
  have "0 < (\<Sum>x\<leftarrow>v. x * x)"
    using assms
  proof (induction v)
    case Nil
    then show ?case by simp
  next
    case (Cons a v)
    have nn: "0 \<le> (\<Sum>x\<leftarrow>v. x * x)" by (rule sum_list_nonneg) auto
    show ?case
    proof (cases "a = 0")
      case True
      then show ?thesis using Cons by simp
    next
      case False
      then have "0 < a * a" by (auto simp: zero_less_mult_iff neq_iff)
      then show ?thesis using nn by simp
    qed
  qed
  moreover have "(\<Sum>(x, y)\<leftarrow>zip v v. x * y) = (\<Sum>x\<leftarrow>v. x * x)"
    by (induction v) simp_all
  ultimately show ?thesis by (simp add: dot_loop_exact)
qed

lemma theta_self_exact:
  assumes "\<exists>x\<in>set v. x \<noteq> (0::real)"
  shows "theta exact v v = Inr 0"
proof -
  have "0 < dot_loop exact (zip v v) 0" using assms by (rule dot_loop_exact_self_pos)
  then show ?thesis
    by (simp add: theta_match) (simp add: exact_def)
qed

text \<open>
  Claim C8 is what the program should do, and in exact arithmetic it does
  (\<open>theta_self_exact\<close>). In double precision it fails for \<open>v = [1, 1, 1]\<close>: \<^verbatim>\<open>dot(v, v)\<close> is \<open>3\<close>,
  the norm is \<open>sqrt 3\<close> rounded, \<open>7800463371553962 / 2\<^sup>5\<^sup>2\<close>, the product of the two norms rounds
  to \<open>3 - 2\<^sup>-\<^sup>5\<^sup>1\<close>, the quotient rounds to \<open>1 + 2\<^sup>-\<^sup>5\<^sup>2\<close>, and \<^verbatim>\<open>std::acos\<close> of a number above \<open>1\<close> is
  not-a-number: \<^verbatim>\<open>theta(v, v)\<close> is not-a-number, not a number near \<open>0\<close>.
\<close>

theorem theta_self_is_nan:
  "theta binary64 [Num 1, Num 1, Num 1] [Num 1, Num 1, Num 1] = Inr NaN"
proof -
  let ?v = "[Num 1, Num 1, Num 1]"
  have d: "dot_loop binary64 (zip ?v ?v) (fzero binary64) = Num 3"
    by (simp add: binary64_def round64_1 round64_2 round64_3)
  have s: "sqrt64 (Num 3) = Num (7800463371553962 / 4503599627370496)"
    by (simp add: round64_sqrt3)
  have p: "mul64 (Num (7800463371553962 / 4503599627370496))
             (Num (7800463371553962 / 4503599627370496)) =
           Num (6755399441055743 / 2251799813685248)"
    by (simp only: mul64.simps round64_square)
  have q: "div64 (Num 3) (Num (6755399441055743 / 2251799813685248)) =
           Num (4503599627370497 / 4503599627370496)"
    by (subst div64.simps) (simp only: round64_quotient, simp)
  have a: "acos64 (Num (4503599627370497 / 4503599627370496)) = NaN"
    by simp
  have "theta binary64 ?v ?v =
        Inr (facos binary64 (fdiv binary64 (Num 3)
               (fmul binary64 (fsqrt binary64 (Num 3)) (fsqrt binary64 (Num 3)))))"
    using theta_match [of ?v ?v binary64] by (simp only: d)
  also have "\<dots> = Inr (acos64 (div64 (Num 3) (mul64 (sqrt64 (Num 3)) (sqrt64 (Num 3)))))"
    by (simp add: binary64_def)
  also have "\<dots> = Inr NaN"
    by (simp only: s p q a)
  finally show ?thesis .
qed

lemma round64_0: "round64 0 = Num 0"
  by (simp add: round64_def)

lemma le64_NaN: "le64 NaN x = False" "le64 x NaN = False"
  by (cases x; simp)+

lemma theta_zero_vector_nan:
  "theta binary64 [Num 0, Num 0] [Num 1, Num 0] = Inr NaN"
  by (simp add: theta_match binary64_def round64_0 round64_1)

lemma successively_neighbour:
  "successively R ys \<Longrightarrow> x \<in> set ys \<Longrightarrow> 2 \<le> length ys \<Longrightarrow> \<exists>y. R x y \<or> R y x"
proof (induction R ys rule: successively.induct)
  case (3 R a b zs)
  show ?case
  proof (cases "x = a \<or> zs = []")
    case True
    then have "x = a \<or> x = b" using "3.prems"(2) by auto
    then show ?thesis using "3.prems"(1) by auto
  next
    case False
    then have "x \<in> set (b # zs)" and "2 \<le> length (b # zs)"
      using "3.prems"(2) by (auto simp: Suc_le_eq)
    moreover have "successively R (b # zs)" using "3.prems"(1) by simp
    ultimately show ?thesis by (rule "3.IH" [rotated])
  qed
qed simp_all

text \<open>
  Claim C1, as stated for every input of same-dimension vectors, does not hold. The input
  \<open>[0, 0]\<close>, \<open>[1, 0]\<close>, \<open>[0, 1]\<close> holds the zero vector; the angle of its pair with \<open>[1, 0]\<close> is
  \<^verbatim>\<open>acos(0.0 / 0.0)\<close>, not-a-number, which is \<^verbatim>\<open><=\<close> nothing and which nothing is \<^verbatim>\<open><=\<close>. So
  whatever \<^verbatim>\<open>std::sort\<close> does, no reordering of the three pairs has non-decreasing angles: the
  pair has a neighbour, and the check fails between the two.
\<close>

theorem theta_sort_nan_not_ordered:
  "\<not> (\<exists>srt ys.
        theta_sort binary64 srt [[Num 0, Num 0], [Num 1, Num 0], [Num 0, Num 1]] = Inr ys \<and>
        mset ys = mset (pairwise_elts [[Num 0, Num 0], [Num 1, Num 0], [Num 0, Num 1]]) \<and>
        nondecreasing_angles binary64 ys)"
proof
  let ?p = "([Num 0, Num 0], [Num 1, Num 0])"
  let ?R = "\<lambda>p q. \<exists>tp tq. theta binary64 (fst p) (snd p) = Inr tp \<and>
                         theta binary64 (fst q) (snd q) = Inr tq \<and> fle binary64 tp tq"
  assume "\<exists>srt ys.
        theta_sort binary64 srt [[Num 0, Num 0], [Num 1, Num 0], [Num 0, Num 1]] = Inr ys \<and>
        mset ys = mset (pairwise_elts [[Num 0, Num 0], [Num 1, Num 0], [Num 0, Num 1]]) \<and>
        nondecreasing_angles binary64 ys"
  then obtain ys where
    perm: "mset ys = mset (pairwise_elts [[Num 0, Num 0], [Num 1, Num 0], [Num 0, Num 1]])"
    and succ: "successively ?R ys"
    unfolding nondecreasing_angles_def by blast
  have "set_mset (mset ys) =
        set_mset (mset (pairwise_elts [[Num 0, Num 0], [Num 1, Num 0], [Num 0, Num 1]]))"
    using perm by simp
  then have mem: "?p \<in> set ys"
    by (simp add: pairwise_elts_def)
  have "size (mset ys) =
        size (mset (pairwise_elts [[Num 0, Num 0], [Num 1, Num 0], [Num 0, Num 1]]))"
    using perm by simp
  then have "2 \<le> length ys"
    by (simp add: pairwise_elts_def)
  with succ mem have "\<exists>q. ?R ?p q \<or> ?R q ?p"
    by (rule successively_neighbour)
  then show False
    by (simp add: theta_zero_vector_nan) (simp add: binary64_def le64_NaN)
qed

lemma mul64_commute: "mul64 x y = mul64 y x"
  by (cases x; cases y) (auto simp: mult.commute)

lemma less64_irrefl: "\<not> less64 x x"
  by (cases x) simp_all

lemma binary64_ordered:
  assumes "NaN \<notin> angles binary64 vecs"
  shows "ordered_angles binary64 vecs"
proof -
  have num: "x \<noteq> NaN" if "x \<in> angles binary64 vecs" for x
    using assms that by auto
  have tr: "less64 x z" if "less64 x y" "less64 y z" for x y z
    using that by (cases x; cases y; cases z) auto
  have eq: "\<not> less64 x z \<and> \<not> less64 z x"
    if "x \<noteq> NaN" "y \<noteq> NaN" "z \<noteq> NaN" "\<not> less64 x y \<and> \<not> less64 y x"
      "\<not> less64 y z \<and> \<not> less64 z y" for x y z
    using that by (cases x; cases y; cases z) auto
  have le: "le64 x y = (\<not> less64 y x)" if "x \<noteq> NaN" "y \<noteq> NaN" for x y
    using that by (cases x; cases y) auto
  show ?thesis
    unfolding ordered_angles_def strict_weak_order_on_def
  proof (intro conjI ballI impI)
    fix x y z
    assume "x \<in> angles binary64 vecs" "y \<in> angles binary64 vecs" "z \<in> angles binary64 vecs"
    then have n: "x \<noteq> NaN" "y \<noteq> NaN" "z \<noteq> NaN" using num by blast+
    {
      assume "fless binary64 x y" "fless binary64 y z"
      then show "fless binary64 x z" using tr [of x y z] by (simp add: binary64_def)
    }
    {
      assume "\<not> fless binary64 x y \<and> \<not> fless binary64 y x"
        "\<not> fless binary64 y z \<and> \<not> fless binary64 z y"
      then have "\<not> less64 x z \<and> \<not> less64 z x"
        using eq [OF n] by (simp add: binary64_def)
      then show "\<not> fless binary64 x z" and "\<not> fless binary64 z x"
        by (simp_all add: binary64_def)
    }
  next
    fix x assume "x \<in> angles binary64 vecs"
    show "\<not> fless binary64 x x" by (simp add: binary64_def less64_irrefl)
  next
    fix x y assume "x \<in> angles binary64 vecs" "y \<in> angles binary64 vecs"
    then show "fle binary64 x y = (\<not> fless binary64 y x)"
      using le [of x y] num by (simp add: binary64_def)
  qed
qed

lemma rne_nonneg: "0 \<le> x \<Longrightarrow> 0 \<le> rne x"
  by (auto simp: rne_def Let_def)

lemma round64_not_NaN: "round64 x \<noteq> NaN"
  by (simp add: round64_def Let_def)

lemma theta64_examples:
  "theta binary64 [Num 1, Num 0] [Num 0, Num 1] = Inr (round64 (arccos 0))"
  "theta binary64 [Num 0, Num 1] [Num 1, Num 0] = Inr (round64 (arccos 0))"
  "theta binary64 [Num 1, Num 0] [Num 1, Num 0] = Inr (round64 (arccos 1))"
  by (simp_all add: theta_match binary64_def round64_0 round64_1)

lemma angles64_example:
  "NaN \<notin> angles binary64 [[Num 1, Num 0], [Num 0, Num 1], [Num 1, Num 0]]"
  by (auto simp: angles_def pairwise_elts_def theta64_examples round64_not_NaN)

theorem theta_sort_sorted_permutation_witness:
  "meets_sort_contract (insertion_sort :: (double dvec \<times> double dvec) sorter)
   \<and> same_dimension [[Num 1, Num 0], [Num 0, Num 1], [Num 1, Num 0]]
   \<and> ordered_angles binary64 [[Num 1, Num 0], [Num 0, Num 1], [Num 1, Num 0]]
   \<and> (\<exists>ys. theta_sort binary64 insertion_sort [[Num 1, Num 0], [Num 0, Num 1], [Num 1, Num 0]] =
              Inr ys \<and>
            mset ys = mset (pairwise_elts [[Num 1, Num 0], [Num 0, Num 1], [Num 1, Num 0]]) \<and>
            nondecreasing_angles binary64 ys)"
proof -
  have dim: "same_dimension [[Num 1, Num 0], [Num 0, Num 1], [Num 1, Num 0]]"
    by (simp add: same_dimension_def)
  have ord: "ordered_angles binary64 [[Num 1, Num 0], [Num 0, Num 1], [Num 1, Num 0]]"
    using angles64_example by (rule binary64_ordered)
  show ?thesis
    using theta_sort_sorted_permutation [OF insertion_sort_meets_contract dim ord]
      insertion_sort_meets_contract dim ord
    by blast
qed

lemma round64_ge0:
  assumes "0 \<le> x"
  shows "le64 (Num 0) (round64 x)"
proof (cases "x = 0")
  case True
  then show ?thesis by (simp add: round64_def)
next
  case False
  then have pos: "0 < x" using assms by simp
  define q :: real where "q = 2 powr (of_int (max \<lfloor>log 2 \<bar>x\<bar>\<rfloor> (- 1022)) - 52)"
  have "0 < q" by (simp add: q_def)
  then have "0 \<le> x / q" using pos by simp
  then have "0 \<le> rne (x / q)" by (rule rne_nonneg)
  then have "0 \<le> of_int (rne (x / q)) * q" using \<open>0 < q\<close> by simp
  then show ?thesis
    using pos False unfolding round64_def Let_def q_def [symmetric] by simp
qed

lemma mul64_self_ge0: "x \<noteq> NaN \<Longrightarrow> le64 (Num 0) (mul64 x x)"
  by (cases x) (simp_all add: round64_ge0)

lemma add64_ge0: "le64 (Num 0) x \<Longrightarrow> le64 (Num 0) y \<Longrightarrow> le64 (Num 0) (add64 x y)"
  by (cases x; cases y) (simp_all add: round64_ge0)

lemma sqrt64_ge0: "le64 (Num 0) x \<Longrightarrow> le64 (Num 0) (sqrt64 x)"
  by (cases x) (simp_all add: round64_ge0)

lemma dot_loop64_ge0:
  "NaN \<notin> set v \<Longrightarrow> le64 (Num 0) acc \<Longrightarrow> le64 (Num 0) (dot_loop binary64 (zip v v) acc)"
proof (induction v arbitrary: acc)
  case Nil
  then show ?case by simp
next
  case (Cons x v)
  have "x \<noteq> NaN" using Cons.prems(1) by auto
  then have "le64 (Num 0) (add64 acc (mul64 x x))"
    using Cons.prems(2) by (intro add64_ge0 mul64_self_ge0)
  moreover have "NaN \<notin> set v" using Cons.prems(1) by simp
  ultimately show ?case using Cons.IH by (simp add: binary64_def)
qed

text \<open>
  Claim C6, amended. \<^verbatim>\<open>norm\<close> never throws: the vector is compatible with itself, so \<^verbatim>\<open>dot\<close>
  returns a value \<open>d\<close> and the norm is the square root of \<open>d\<close>; it is \<^verbatim>\<open>0.0\<close> for the empty
  vector. When no element of the vector is not-a-number, \<^verbatim>\<open>0.0 <= norm\<close> holds (the norm is a
  number that is not negative, or \<open>+\<infinity>\<close> when the sum of squares overflows). In the build
  without \<^verbatim>\<open>HAVEZIP\<close> \<^verbatim>\<open>norm\<close> returns the same for vectors of fewer than \<open>2\<^sup>3\<^sup>2\<close> elements.
\<close>

theorem norm_never_fails:
  "(\<exists>d r. dot binary64 v v = Inr d \<and> norm_dvec binary64 v = Inr r \<and> r = sqrt64 d \<and>
          (NaN \<notin> set v \<longrightarrow> le64 (Num 0) r) \<and>
          (length v < 2 ^ 32 \<longrightarrow> norm_index binary64 v = Some (Inr r)))
   \<and> norm_dvec binary64 [] = Inr (Num 0)"
proof
  let ?d = "dot_loop binary64 (zip v v) (Num 0)"
  have d: "dot binary64 v v = Inr ?d"
    by (simp add: dot_match) (simp add: binary64_def)
  have r: "norm_dvec binary64 v = Inr (sqrt64 ?d)"
    by (simp add: norm_dvec_total) (simp add: binary64_def)
  have s: "le64 (Num 0) (sqrt64 ?d)" if "NaN \<notin> set v"
    using that by (intro sqrt64_ge0 dot_loop64_ge0) simp_all
  have i: "norm_index binary64 v = Some (Inr (sqrt64 ?d))" if "length v < 2 ^ 32"
    using norm_index_agrees [OF that, of binary64] r by simp
  show "\<exists>d r. dot binary64 v v = Inr d \<and> norm_dvec binary64 v = Inr r \<and> r = sqrt64 d \<and>
          (NaN \<notin> set v \<longrightarrow> le64 (Num 0) r) \<and>
          (length v < 2 ^ 32 \<longrightarrow> norm_index binary64 v = Some (Inr r))"
    using d r s i by blast
  show "norm_dvec binary64 [] = Inr (Num 0)"
    by (simp add: norm_dvec_total binary64_def round64_0)
qed

theorem norm_never_fails_witness:
  "NaN \<notin> set [Num 1, Num 1, Num 1]
   \<and> length [Num 1, Num 1, Num 1 :: double] < 2 ^ 32
   \<and> dot binary64 [Num 1, Num 1, Num 1] [Num 1, Num 1, Num 1] = Inr (Num 3)
   \<and> norm_dvec binary64 [Num 1, Num 1, Num 1] = Inr (Num (7800463371553962 / 4503599627370496))
   \<and> le64 (Num 0) (Num (7800463371553962 / 4503599627370496))
   \<and> norm_index binary64 [Num 1, Num 1, Num 1] = Some (Inr (Num (7800463371553962 / 4503599627370496)))
   \<and> norm_dvec binary64 [] = Inr (Num 0)"
proof -
  have d: "dot binary64 [Num 1, Num 1, Num 1] [Num 1, Num 1, Num 1] = Inr (Num 3)"
    by (simp add: dot_match binary64_def round64_1 round64_2 round64_3)
  have r: "sqrt64 (Num 3) = Num (7800463371553962 / 4503599627370496)"
    by (simp add: round64_sqrt3)
  from norm_never_fails [of "[Num 1, Num 1, Num 1]"]
  obtain d' r' where "dot binary64 [Num 1, Num 1, Num 1] [Num 1, Num 1, Num 1] = Inr d'"
    and n: "norm_dvec binary64 [Num 1, Num 1, Num 1] = Inr r'" "r' = sqrt64 d'"
      "NaN \<notin> set [Num 1, Num 1, Num 1] \<longrightarrow> le64 (Num 0) r'"
      "length [Num 1, Num 1, Num 1 :: double] < 2 ^ 32 \<longrightarrow>
         norm_index binary64 [Num 1, Num 1, Num 1] = Some (Inr r')"
    and e: "norm_dvec binary64 [] = Inr (Num 0)"
    by blast
  then have "d' = Num 3" using d by simp
  then have "r' = Num (7800463371553962 / 4503599627370496)" using n(2) r by simp
  then show ?thesis using d n e by simp
qed

text \<open>
  Claim C6, as stated for every vector, does not hold. A \<^verbatim>\<open>dvec\<close> is built by the constructors
  of \<^verbatim>\<open>vector<double>\<close> and may hold a not-a-number; the norm of such a vector is not-a-number,
  and \<^verbatim>\<open>0.0 <= norm\<close> is false. And without \<^verbatim>\<open>HAVEZIP\<close> the norm of a vector of \<open>2\<^sup>3\<^sup>2\<close> elements
  does not return.
\<close>

theorem norm_of_nan:
  "norm_dvec binary64 [NaN] = Inr NaN \<and> \<not> le64 (Num 0) NaN
   \<and> norm_index binary64 (replicate (2 ^ 32) (Num 0)) = None"
  by (simp add: norm_dvec_total norm_index_def dot_index_never_returns) (simp add: binary64_def)

lemma round64_4: "round64 4 = Num 4"
proof -
  have "rne (4 * 2 ^ 52 / 2 ^ 2) = 4503599627370496"
    by (rule rne_unique) simp_all
  from round64_binade [of 2 4, OF _ _ _ this] show ?thesis by simp
qed

lemma round64_6: "round64 6 = Num 6"
proof -
  have "rne (6 * 2 ^ 52 / 2 ^ 2) = 6755399441055744"
    by (rule rne_unique) simp_all
  from round64_binade [of 2 6, OF _ _ _ this] show ?thesis by simp
qed

lemma round64_8: "round64 8 = Num 8"
proof -
  have "rne (8 * 2 ^ 52 / 2 ^ 3) = 4503599627370496"
    by (rule rne_unique) simp_all
  from round64_binade [of 3 8, OF _ _ _ this] show ?thesis by simp
qed

lemma round64_12: "round64 12 = Num 12"
proof -
  have "rne (12 * 2 ^ 52 / 2 ^ 3) = 6755399441055744"
    by (rule rne_unique) simp_all
  from round64_binade [of 3 12, OF _ _ _ this] show ?thesis by simp
qed

lemma sqrt12_bounds:
  "15600926743107923 / 4503599627370496 < sqrt 12" "sqrt 12 < 15600926743107925 / 4503599627370496"
proof -
  show "15600926743107923 / 4503599627370496 < sqrt 12"
    by (rule real_less_rsqrt) (simp add: power2_eq_square)
  show "sqrt 12 < 15600926743107925 / 4503599627370496"
    by (rule real_less_lsqrt) (simp_all add: power2_eq_square)
qed

lemma round64_sqrt12: "round64 (sqrt 12) = Num (7800463371553962 / 2251799813685248)"
proof -
  have "rne (sqrt 12 * 2 ^ 52 / 2 ^ 1) = 7800463371553962"
    using sqrt12_bounds by (intro rne_unique) simp_all
  moreover have "2 \<le> sqrt 12" by (rule real_le_rsqrt) simp
  moreover have "sqrt 12 < 4" using sqrt12_bounds(2) by simp
  ultimately show ?thesis
    using round64_binade [of 1 "sqrt 12" 7800463371553962] by simp
qed

lemma round64_product:
  "round64 (7800463371553962 / 4503599627370496 * (7800463371553962 / 2251799813685248)) =
   Num (6755399441055743 / 1125899906842624)"
proof -
  let ?x = "7800463371553962 / 4503599627370496 * (7800463371553962 / 2251799813685248) :: real"
  have "rne (?x * 2 ^ 52 / 2 ^ 2) = 6755399441055743"
    by (rule rne_unique) simp_all
  from round64_binade [of 2 ?x, OF _ _ _ this] show ?thesis by simp
qed

lemma round64_quotient6:
  "round64 (6 / (6755399441055743 / 1125899906842624)) =
   Num (4503599627370497 / 4503599627370496)"
proof -
  let ?x = "6 / (6755399441055743 / 1125899906842624) :: real"
  have "rne (?x * 2 ^ 52 / 2 ^ 0) = 4503599627370497"
    by (rule rne_unique) simp_all
  from round64_binade [of 0 ?x, OF _ _ _ this] show ?thesis by simp
qed

lemma norm64_111:
  "norm_dvec binary64 [Num 1, Num 1, Num 1] = Inr (Num (7800463371553962 / 4503599627370496))"
  by (simp add: norm_dvec_total binary64_def round64_1 round64_2 round64_3 round64_sqrt3)

lemma norm64_222:
  "norm_dvec binary64 [Num 2, Num 2, Num 2] = Inr (Num (7800463371553962 / 2251799813685248))"
  by (simp add: norm_dvec_total binary64_def round64_4 round64_8 round64_12 round64_sqrt12)

lemma dot64_111_222:
  "dot binary64 [Num 1, Num 1, Num 1] [Num 2, Num 2, Num 2] = Inr (Num 6)"
  "dot binary64 [Num 2, Num 2, Num 2] [Num 1, Num 1, Num 1] = Inr (Num 6)"
  by (simp_all add: dot_match binary64_def round64_2 round64_4 round64_6)

lemma theta_unfold:
  "length a = length b \<Longrightarrow> dot fp a b = Inr d \<Longrightarrow> norm_dvec fp a = Inr na \<Longrightarrow>
   norm_dvec fp b = Inr nb \<Longrightarrow> theta fp a b = Inr (facos fp (fdiv fp d (fmul fp na nb)))"
  by (simp add: theta_def assert_compatible_def)

text \<open>
  Claim C7 is what the program should do, and the two calls do return the same value
  (\<open>theta_commute\<close>, with \<open>mul64_commute\<close>). But the claim compares the results with \<^verbatim>\<open>==\<close>, and
  the value can be not-a-number for two vectors of equal length and non-zero norm, by the
  rounding that also breaks claim C8. For \<open>a = [1, 1, 1]\<close> and \<open>b = [2, 2, 2]\<close> the dot product is
  \<open>6\<close>, the norms are \<open>sqrt 3\<close> and \<open>sqrt 12\<close> rounded, \<open>s = 7800463371553962 / 2\<^sup>5\<^sup>2\<close> and \<open>2 * s\<close>,
  their product rounds to \<open>6 - 2\<^sup>-\<^sup>5\<^sup>0\<close>, the quotient rounds to \<open>1 + 2\<^sup>-\<^sup>5\<^sup>2\<close>, and \<^verbatim>\<open>std::acos\<close> of it
  is not-a-number, in either order of the arguments and in either build:
  \<^verbatim>\<open>theta(a, b) == theta(b, a)\<close> is false.
\<close>

theorem theta_not_symmetric_on_nan:
  "length [Num 1, Num 1, Num 1 :: double] = length [Num 2, Num 2, Num 2 :: double]
   \<and> norm_dvec binary64 [Num 1, Num 1, Num 1] = Inr (Num (7800463371553962 / 4503599627370496))
   \<and> norm_dvec binary64 [Num 2, Num 2, Num 2] = Inr (Num (7800463371553962 / 2251799813685248))
   \<and> theta binary64 [Num 1, Num 1, Num 1] [Num 2, Num 2, Num 2] = Inr NaN
   \<and> theta binary64 [Num 2, Num 2, Num 2] [Num 1, Num 1, Num 1] = Inr NaN
   \<and> theta_index binary64 [Num 1, Num 1, Num 1] [Num 2, Num 2, Num 2] = Some (Inr NaN)
   \<and> theta_index binary64 [Num 2, Num 2, Num 2] [Num 1, Num 1, Num 1] = Some (Inr NaN)
   \<and> \<not> same_angle (theta binary64 [Num 1, Num 1, Num 1] [Num 2, Num 2, Num 2])
                   (theta binary64 [Num 2, Num 2, Num 2] [Num 1, Num 1, Num 1])"
proof -
  let ?a = "[Num 1, Num 1, Num 1]" and ?b = "[Num 2, Num 2, Num 2]"
  have p: "mul64 (Num (7800463371553962 / 4503599627370496))
             (Num (7800463371553962 / 2251799813685248)) =
           Num (6755399441055743 / 1125899906842624)"
    by (simp only: mul64.simps round64_product)
  have q: "div64 (Num 6) (Num (6755399441055743 / 1125899906842624)) =
           Num (4503599627370497 / 4503599627370496)"
    by (subst div64.simps) (simp only: round64_quotient6, simp)
  have a: "acos64 (Num (4503599627370497 / 4503599627370496)) = NaN"
    by simp
  have "theta binary64 ?a ?b =
        Inr (facos binary64 (fdiv binary64 (Num 6)
               (fmul binary64 (Num (7800463371553962 / 4503599627370496))
                  (Num (7800463371553962 / 2251799813685248)))))"
    by (rule theta_unfold [OF _ dot64_111_222(1) norm64_111 norm64_222]) simp
  also have "\<dots> = Inr (acos64 (div64 (Num 6)
        (mul64 (Num (7800463371553962 / 4503599627370496))
               (Num (7800463371553962 / 2251799813685248)))))"
    by (simp add: binary64_def)
  also have "\<dots> = Inr NaN"
    by (simp only: p q a)
  finally have ab: "theta binary64 ?a ?b = Inr NaN" .
  have "theta binary64 ?b ?a =
        Inr (facos binary64 (fdiv binary64 (Num 6)
               (fmul binary64 (Num (7800463371553962 / 2251799813685248))
                  (Num (7800463371553962 / 4503599627370496)))))"
    by (rule theta_unfold [OF _ dot64_111_222(2) norm64_222 norm64_111]) simp
  also have "\<dots> = Inr (acos64 (div64 (Num 6)
        (mul64 (Num (7800463371553962 / 4503599627370496))
               (Num (7800463371553962 / 2251799813685248)))))"
    by (simp only: binary64_def fpu.simps mul64_commute)
  also have "\<dots> = Inr NaN"
    by (simp only: p q a)
  finally have ba: "theta binary64 ?b ?a = Inr NaN" .
  have "theta_index binary64 ?a ?b = Some (Inr NaN)" "theta_index binary64 ?b ?a = Some (Inr NaN)"
    using theta_index_agrees [of ?a ?b binary64] theta_index_agrees [of ?b ?a binary64] ab ba
    by simp_all
  moreover have "\<not> same_angle (theta binary64 ?a ?b) (theta binary64 ?b ?a)"
    unfolding ab ba by (simp add: same_angle_def)
  ultimately show ?thesis using ab ba norm64_111 norm64_222 by simp
qed

section \<open>The library sort: proofs\<close>

declare std_lg.simps [simp del] std_push_heap.simps [simp del] std_adjust_heap_loop.simps [simp del]
  std_make_heap_loop.simps [simp del] std_sort_heap.simps [simp del]
  std_heap_select_loop.simps [simp del] std_partition_up.simps [simp del]
  std_partition_down.simps [simp del] std_unguarded_partition.simps [simp del]
  std_introsort_loop.simps [simp del] std_unguarded_linear_insert_loop.simps [simp del]
  std_insertion_sort_loop.simps [simp del] std_unguarded_insertion_sort.simps [simp del]

text \<open>
  The insertion sort of the library moves an element to the left only past elements it is less
  than. \<^verbatim>\<open>__unguarded_linear_insert\<close> on the element \<open>x\<close> after a prefix \<open>U @ W\<close>, where \<open>x\<close> is
  less than every element of \<open>W\<close> and not less than the last element of \<open>U\<close>, puts \<open>x\<close> between
  \<open>U\<close> and \<open>W\<close>.
\<close>

lemma linear_insert_loop_result:
  assumes stop: "cmp x (last U) = Inr False" and ne: "U \<noteq> []"
  shows "(\<And>y. y \<in> set W \<Longrightarrow> cmp x y = Inr True) \<Longrightarrow>
         std_unguarded_linear_insert_loop cmp x (length (U @ W)) (U @ W @ h # B) =
         Returns (U @ x # W @ B)"
proof (induction W arbitrary: h B rule: rev_induct)
  case Nil
  have "(U @ h # B) ! (length U - 1) = last U"
    using ne by (simp add: nth_append last_conv_nth)
  then show ?case
    using ne stop by (subst std_unguarded_linear_insert_loop.simps) simp
next
  case (snoc y W)
  have c: "cmp x y = Inr True" using snoc.prems by simp
  have IH: "std_unguarded_linear_insert_loop cmp x (length (U @ W)) (U @ W @ y # y # B) =
            Returns (U @ x # W @ y # B)"
    using snoc.prems by (intro snoc.IH) simp
  have e: "(U @ W @ y # h # B) ! (length U + length W) = y"
    using nth_append_length [of "U @ W" y "h # B"] by simp
  have u: "(U @ W @ y # h # B)[Suc (length U + length W) := y] = U @ W @ y # y # B"
    using list_update_length [of "U @ W @ [y]" h B y] by simp
  show ?case
    using IH by (subst std_unguarded_linear_insert_loop.simps) (simp add: e u c)
qed

lemma split_at_last_stop:
  assumes "\<exists>y\<in>set A. \<not> P y"
  shows "\<exists>A1 A2. A = A1 @ A2 \<and> A1 \<noteq> [] \<and> \<not> P (last A1) \<and> (\<forall>y\<in>set A2. P y)"
  using assms
proof (induction A rule: rev_induct)
  case Nil
  then show ?case by simp
next
  case (snoc a A)
  show ?case
  proof (cases "P a")
    case True
    then have "\<exists>y\<in>set A. \<not> P y" using snoc.prems by auto
    from snoc.IH [OF this] obtain A1 A2 where
      "A = A1 @ A2" "A1 \<noteq> []" "\<not> P (last A1)" "\<forall>y\<in>set A2. P y" by blast
    then have "A @ [a] = A1 @ (A2 @ [a]) \<and> A1 \<noteq> [] \<and> \<not> P (last A1) \<and> (\<forall>y\<in>set (A2 @ [a]). P y)"
      using True by simp
    then show ?thesis by blast
  next
    case False
    then have "A @ [a] = (A @ [a]) @ [] \<and> A @ [a] \<noteq> [] \<and> \<not> P (last (A @ [a])) \<and> (\<forall>y\<in>set []. P y)"
      by simp
    then show ?thesis by blast
  qed
qed

lemma insertion_sort_loop_stable:
  fixes key :: "'a \<Rightarrow> 'k" and lt :: "'k \<Rightarrow> 'k \<Rightarrow> bool"
  assumes irrefl: "\<And>k. \<not> lt k k"
    and trans: "\<And>a b c. lt a b \<Longrightarrow> lt b c \<Longrightarrow> lt a c"
    and cmp: "\<And>x y. good x \<Longrightarrow> good y \<Longrightarrow> cmp x y = Inr (lt (key x) (key y))"
    and bad: "\<And>x y. \<not> good x \<or> \<not> good y \<Longrightarrow> cmp x y = Inl E"
  shows "(\<And>y. y \<in> set pre \<Longrightarrow> good y) \<Longrightarrow> pre \<noteq> [] \<Longrightarrow>
         (\<And>y. y \<in> set pre \<Longrightarrow> \<not> lt (key y) (key (hd pre))) \<Longrightarrow>
         (\<exists>ys. std_insertion_sort_loop cmp 0 (length (pre @ rest)) (length pre) (pre @ rest) =
                 Returns ys \<and>
               mset ys = mset (pre @ rest) \<and>
               (\<forall>k. filter (\<lambda>x. key x = k) ys = filter (\<lambda>x. key x = k) (pre @ rest)))
         \<or> (std_insertion_sort_loop cmp 0 (length (pre @ rest)) (length pre) (pre @ rest) =
               Throws E \<and> (\<exists>x\<in>set rest. \<not> good x))"
proof (induction rest arbitrary: pre)
  case Nil
  show ?case by (subst std_insertion_sort_loop.simps) simp
next
  case (Cons x rest)
  let ?xs = "pre @ x # rest"
  have good: "good y" if "y \<in> set pre" for y
    using Cons.prems(1) that by blast
  have ne: "pre \<noteq> []" by (rule Cons.prems(2))
  have min: "\<not> lt (key y) (key (hd pre))" if "y \<in> set pre" for y
    using Cons.prems(3) that by blast
  have hd_in: "hd pre \<in> set pre" using ne by simp
  have i: "length pre < length ?xs" by simp
  have xi: "?xs ! length pre = x" by simp
  have x0: "?xs ! 0 = hd pre" using ne by (simp add: nth_append hd_conv_nth)
  show ?case
  proof (cases "good x")
    case False
    then have "cmp x (hd pre) = Inl E" by (intro bad) simp
    then have "std_insertion_sort_loop cmp 0 (length ?xs) (length pre) ?xs = Throws E"
      using i by (subst std_insertion_sort_loop.simps) (simp only: xi x0, simp)
    then show ?thesis using False by simp
  next
    case gx: True
    have c0: "cmp x (hd pre) = Inr (lt (key x) (key (hd pre)))"
      using gx hd_in good by (intro cmp) simp_all
    show ?thesis
    proof (cases "lt (key x) (key (hd pre))")
      case True
      have mv: "move_to_front 0 (length pre) ?xs = (x # pre) @ rest"
        by (simp add: move_to_front_def)
      have step: "std_insertion_sort_loop cmp 0 (length ?xs) (length pre) ?xs =
                  std_insertion_sort_loop cmp 0 (length ((x # pre) @ rest)) (length (x # pre))
                    ((x # pre) @ rest)"
        using True i by (subst std_insertion_sort_loop.simps) (simp only: xi x0 c0 mv, simp)
      have "(\<exists>ys. std_insertion_sort_loop cmp 0 (length ((x # pre) @ rest)) (length (x # pre))
                    ((x # pre) @ rest) = Returns ys \<and>
                mset ys = mset ((x # pre) @ rest) \<and>
                (\<forall>k. filter (\<lambda>x. key x = k) ys = filter (\<lambda>x. key x = k) ((x # pre) @ rest)))
            \<or> (std_insertion_sort_loop cmp 0 (length ((x # pre) @ rest)) (length (x # pre))
                    ((x # pre) @ rest) = Throws E \<and> (\<exists>x\<in>set rest. \<not> good x))"
      proof (rule Cons.IH)
        fix y assume "y \<in> set (x # pre)"
        then show "good y" using gx good by auto
      next
        show "x # pre \<noteq> []" by simp
      next
        fix y assume y: "y \<in> set (x # pre)"
        show "\<not> lt (key y) (key (hd (x # pre)))"
        proof (cases "y = x")
          case True
          then show ?thesis using irrefl by simp
        next
          case False
          then have "y \<in> set pre" using y by simp
          then have "\<not> lt (key y) (key (hd pre))" by (rule min)
          then have "\<not> lt (key y) (key x)"
            using trans [OF _ \<open>lt (key x) (key (hd pre))\<close>] by blast
          then show ?thesis by simp
        qed
      qed
      moreover have none: "filter (\<lambda>y. key y = key x) pre = []"
      proof -
        have "key y \<noteq> key x" if "y \<in> set pre" for y
          using min [OF that] True by auto
        then show ?thesis by (simp add: filter_empty_conv)
      qed
      have "filter (\<lambda>y. key y = k) ((x # pre) @ rest) = filter (\<lambda>y. key y = k) ?xs" for k
        using none by (cases "key x = k") auto
      ultimately show ?thesis unfolding step by auto
    next
      case False
      have "\<exists>y\<in>set pre. \<not> lt (key x) (key y)" using False hd_in by blast
      from split_at_last_stop [OF this] obtain A1 A2 where
        A: "pre = A1 @ A2" "A1 \<noteq> []" "\<not> lt (key x) (key (last A1))"
          "\<forall>y\<in>set A2. lt (key x) (key y)"
        by blast
      have "last A1 \<in> set pre" using A(1,2) by simp
      then have stop: "cmp x (last A1) = Inr False"
        using A(3) cmp [of x "last A1"] gx good by simp
      have go: "cmp x y = Inr True" if "y \<in> set A2" for y
        using that A(1,4) cmp [of x y] gx good by simp
      have ins: "std_unguarded_linear_insert cmp (length pre) ?xs = Returns ((A1 @ x # A2) @ rest)"
        using linear_insert_loop_result
          [where cmp = cmp and x = x and U = A1 and W = A2 and h = x and B = rest, OF stop A(2) go]
        by (simp add: std_unguarded_linear_insert_def A(1))
      have step: "std_insertion_sort_loop cmp 0 (length ?xs) (length pre) ?xs =
                  std_insertion_sort_loop cmp 0 (length ((A1 @ x # A2) @ rest))
                    (length (A1 @ x # A2)) ((A1 @ x # A2) @ rest)"
        using False i
        by (subst std_insertion_sort_loop.simps) (simp only: xi x0 c0 ins, simp add: A(1))
      have hd1: "hd (A1 @ x # A2) = hd pre" using A(1,2) by simp
      have "(\<exists>ys. std_insertion_sort_loop cmp 0 (length ((A1 @ x # A2) @ rest))
                    (length (A1 @ x # A2)) ((A1 @ x # A2) @ rest) = Returns ys \<and>
                mset ys = mset ((A1 @ x # A2) @ rest) \<and>
                (\<forall>k. filter (\<lambda>x. key x = k) ys =
                     filter (\<lambda>x. key x = k) ((A1 @ x # A2) @ rest)))
            \<or> (std_insertion_sort_loop cmp 0 (length ((A1 @ x # A2) @ rest))
                    (length (A1 @ x # A2)) ((A1 @ x # A2) @ rest) = Throws E \<and>
                (\<exists>x\<in>set rest. \<not> good x))"
      proof (rule Cons.IH)
        fix y assume "y \<in> set (A1 @ x # A2)"
        then have "y = x \<or> y \<in> set pre" using A(1) by auto
        then show "good y" using gx good by blast
      next
        show "A1 @ x # A2 \<noteq> []" by simp
      next
        fix y assume "y \<in> set (A1 @ x # A2)"
        then have "y = x \<or> y \<in> set pre" using A(1) by auto
        then show "\<not> lt (key y) (key (hd (A1 @ x # A2)))"
          unfolding hd1 using False min by blast
      qed
      moreover have none: "filter (\<lambda>y. key y = key x) A2 = []"
      proof -
        have "key y \<noteq> key x" if "y \<in> set A2" for y
          using A(4) that irrefl by auto
        then show ?thesis by (simp add: filter_empty_conv)
      qed
      have "filter (\<lambda>y. key y = k) ((A1 @ x # A2) @ rest) = filter (\<lambda>y. key y = k) ?xs" for k
        using none by (cases "key x = k") (auto simp: A(1))
      moreover have "mset ((A1 @ x # A2) @ rest) = mset ?xs" by (simp add: A(1))
      ultimately show ?thesis unfolding step by auto
    qed
  qed
qed

lemma std_sort_small_stable:
  fixes key :: "'a \<Rightarrow> 'k" and lt :: "'k \<Rightarrow> 'k \<Rightarrow> bool"
  assumes small: "length xs \<le> 16"
    and irrefl: "\<And>k. \<not> lt k k"
    and trans: "\<And>a b c. lt a b \<Longrightarrow> lt b c \<Longrightarrow> lt a c"
    and cmp: "\<And>x y. good x \<Longrightarrow> good y \<Longrightarrow> cmp x y = Inr (lt (key x) (key y))"
    and bad: "\<And>x y. \<not> good x \<or> \<not> good y \<Longrightarrow> cmp x y = Inl E"
  shows "(\<exists>ys. std_sort cmp xs = Returns ys \<and> mset ys = mset xs \<and>
               (\<forall>k. filter (\<lambda>x. key x = k) ys = filter (\<lambda>x. key x = k) xs))
         \<or> (std_sort cmp xs = Throws E \<and> (\<exists>x\<in>set xs. \<not> good x))"
proof (cases xs)
  case Nil
  then show ?thesis by (simp add: std_sort_def)
next
  case (Cons x rest)
  have intro: "std_introsort_loop cmp 0 (length xs) d xs = Returns xs" for d
    using small by (subst std_introsort_loop.simps) simp
  have ne: "xs \<noteq> []" using Cons by simp
  then have len: "0 \<noteq> length xs" by simp
  have "std_sort cmp xs = std_final_insertion_sort cmp 0 (length xs) xs"
    using ne by (simp add: std_sort_def intro)
  also have "\<dots> = std_insertion_sort_loop cmp 0 (length xs) (0 + 1) xs"
    using small len by (simp add: std_final_insertion_sort_def std_insertion_sort_def)
  finally have sort: "std_sort cmp xs =
      std_insertion_sort_loop cmp 0 (length ([x] @ rest)) (length [x]) ([x] @ rest)"
    using Cons by simp
  show ?thesis
  proof (cases "good x \<or> rest = []")
    case True
    show ?thesis
    proof (cases "rest = []")
      case True
      then have "std_sort cmp xs = Returns xs"
        unfolding sort using Cons by (subst std_insertion_sort_loop.simps) simp
      then show ?thesis by simp
    next
      case False
      then have gx: "good x" using True by simp
      have "(\<exists>ys. std_insertion_sort_loop cmp 0 (length ([x] @ rest)) (length [x]) ([x] @ rest) =
                   Returns ys \<and>
                mset ys = mset ([x] @ rest) \<and>
                (\<forall>k. filter (\<lambda>x. key x = k) ys = filter (\<lambda>x. key x = k) ([x] @ rest)))
            \<or> (std_insertion_sort_loop cmp 0 (length ([x] @ rest)) (length [x]) ([x] @ rest) =
                  Throws E \<and> (\<exists>x\<in>set rest. \<not> good x))"
      proof (rule insertion_sort_loop_stable
          [where lt = lt and cmp = cmp and pre = "[x]" and key = key and good = good])
        fix y assume "y \<in> set [x]"
        then show "good y" using gx by simp
      next
        fix y assume "y \<in> set [x]"
        then show "\<not> lt (key y) (key (hd [x]))" using irrefl by simp
      qed (use irrefl trans cmp bad in auto)
      then show ?thesis unfolding sort [symmetric] using Cons by auto
    qed
  next
    case False
    then obtain y rest' where rest: "rest = y # rest'" and bx: "\<not> good x"
      by (cases rest) auto
    have "cmp y x = Inl E" using bx by (intro bad) simp
    then have "std_sort cmp xs = Throws E"
      unfolding sort rest by (subst std_insertion_sort_loop.simps) simp
    then show ?thesis using bx Cons by auto
  qed
qed

lemma less64_trans: "less64 x y \<Longrightarrow> less64 y z \<Longrightarrow> less64 x z"
  by (cases x; cases y; cases z) auto

lemma length_pairwise_elts: "length (pairwise_elts vecs) = length vecs * (length vecs - 1) div 2"
  using pairwise_elts_index [of vecs] length_index_pairs [of "length vecs"]
  by (metis length_map)

lemma round64_nat:
  assumes "n < 2 ^ 53"
  shows "round64 (of_nat n) = Num (of_nat n)"
proof (cases "n = 0")
  case True
  then show ?thesis by (simp add: round64_def)
next
  case False
  then have pos: "0 < (of_nat n :: real)" by simp
  define e where "e = \<lfloor>log 2 (of_nat n)\<rfloor>"
  have e0: "0 \<le> e"
  proof -
    have "1 \<le> (of_nat n :: real)" using False by simp
    then have "0 \<le> log 2 (of_nat n)" by simp
    then show ?thesis unfolding e_def by simp
  qed
  have e52: "e \<le> 52"
  proof -
    have "(of_nat n :: real) < 2 ^ 53"
      using assms by (metis of_nat_less_iff of_nat_numeral of_nat_power)
    then have "log 2 (of_nat n) < 53" using pos by (simp add: log_less_iff powr_realpow [symmetric])
    then have "e < 53" unfolding e_def by linarith
    then show ?thesis by simp
  qed
  define k where "k = nat (52 - e)"
  have q: "2 powr (of_int (max e (- 1022)) - 52) = 1 / (2::real) ^ k"
  proof -
    have "max e (- 1022) = e" using e0 by simp
    moreover have "of_int e - 52 = - real k" using e52 by (simp add: k_def)
    ultimately show ?thesis by (simp add: powr_minus powr_realpow divide_simps)
  qed
  have "of_nat n / (1 / (2::real) ^ k) = of_int (int n * 2 ^ k)" by simp
  then have r: "rne (of_nat n / (1 / (2::real) ^ k)) = int n * 2 ^ k"
    by (simp only: rne_of_int)
  have y: "of_int (int n * 2 ^ k) * (1 / (2::real) ^ k) = of_nat n" by simp
  have "(of_nat n :: real) < 2 ^ 53"
    using assms by (metis of_nat_less_iff of_nat_numeral of_nat_power)
  also have "\<dots> \<le> 2 ^ 1024" by simp
  finally have fin: "\<not> 2 ^ 1024 \<le> \<bar>of_nat n :: real\<bar>" by simp
  have abs: "\<bar>of_nat n :: real\<bar> = of_nat n" by simp
  show ?thesis
    unfolding round64_def abs e_def [symmetric] q Let_def r y using False fin by simp
qed

lemma round64_numeral:
  "(numeral w :: nat) < 2 ^ 53 \<Longrightarrow> round64 (numeral w) = Num (numeral w)"
  using round64_nat [of "numeral w"] by simp

lemma sqrt_squares:
  "sqrt 4 = 2" "sqrt 9 = 3" "sqrt 16 = 4" "sqrt 25 = 5" "sqrt 36 = 6" "sqrt 49 = 7"
  using real_sqrt_abs [of 2] real_sqrt_abs [of 3] real_sqrt_abs [of 4] real_sqrt_abs [of 5]
    real_sqrt_abs [of 6] real_sqrt_abs [of 7]
  by simp_all

lemma theta64_collinear:
  "theta binary64 [Num 1] [Num 2] = Inr (Num 0)"
  "theta binary64 [Num 1] [Num 3] = Inr (Num 0)"
  "theta binary64 [Num 1] [Num 4] = Inr (Num 0)"
  "theta binary64 [Num 1] [Num 5] = Inr (Num 0)"
  "theta binary64 [Num 1] [Num 6] = Inr (Num 0)"
  "theta binary64 [Num 1] [Num 7] = Inr (Num 0)"
  "theta binary64 [Num 2] [Num 3] = Inr (Num 0)"
  "theta binary64 [Num 2] [Num 4] = Inr (Num 0)"
  "theta binary64 [Num 2] [Num 5] = Inr (Num 0)"
  "theta binary64 [Num 2] [Num 6] = Inr (Num 0)"
  "theta binary64 [Num 2] [Num 7] = Inr (Num 0)"
  "theta binary64 [Num 3] [Num 4] = Inr (Num 0)"
  "theta binary64 [Num 3] [Num 5] = Inr (Num 0)"
  "theta binary64 [Num 3] [Num 6] = Inr (Num 0)"
  "theta binary64 [Num 3] [Num 7] = Inr (Num 0)"
  "theta binary64 [Num 4] [Num 5] = Inr (Num 0)"
  "theta binary64 [Num 4] [Num 6] = Inr (Num 0)"
  "theta binary64 [Num 4] [Num 7] = Inr (Num 0)"
  "theta binary64 [Num 5] [Num 6] = Inr (Num 0)"
  "theta binary64 [Num 5] [Num 7] = Inr (Num 0)"
  "theta binary64 [Num 6] [Num 7] = Inr (Num 0)"
  by (simp_all add: theta_match binary64_def round64_0 round64_1 round64_numeral sqrt_squares)

lemma pairwise_elts_collinear:
  "pairwise_elts [[Num 1], [Num 2], [Num 3], [Num 4], [Num 5], [Num 6], [Num 7]] =
     [([Num 1], [Num 2]),
      ([Num 1], [Num 3]),
      ([Num 1], [Num 4]),
      ([Num 1], [Num 5]),
      ([Num 1], [Num 6]),
      ([Num 1], [Num 7]),
      ([Num 2], [Num 3]),
      ([Num 2], [Num 4]),
      ([Num 2], [Num 5]),
      ([Num 2], [Num 6]),
      ([Num 2], [Num 7]),
      ([Num 3], [Num 4]),
      ([Num 3], [Num 5]),
      ([Num 3], [Num 6]),
      ([Num 3], [Num 7]),
      ([Num 4], [Num 5]),
      ([Num 4], [Num 6]),
      ([Num 4], [Num 7]),
      ([Num 5], [Num 6]),
      ([Num 5], [Num 7]),
      ([Num 6], [Num 7])]"
  by (simp add: pairwise_elts_def)

text \<open>
  Claim C2, amended. For an input of at most six vectors, which has at most 15 pairs,
  \<^verbatim>\<open>theta_sort\<close> returns a reordering of the pairs of \<^verbatim>\<open>pairwise_elts\<close> in which the pairs of
  any one angle are in their enumeration order: \<^verbatim>\<open>std::sort\<close> sorts a sequence of this length
  by insertion, and an element is never moved past one of the same angle. The only other
  outcome is the exception of \<^verbatim>\<open>theta\<close>, for an input whose vectors are not all of the same size.
\<close>

theorem theta_sort_keeps_ties_up_to_six_vectors:
  assumes six: "length vecs \<le> 6"
  shows "(\<exists>ys. theta_sort binary64 std_sort vecs = Returns ys \<and>
               mset ys = mset (pairwise_elts vecs) \<and>
               keeps_tie_order binary64 (pairwise_elts vecs) ys)
         \<or> (\<not> same_dimension vecs \<and>
             theta_sort binary64 std_sort vecs =
               Throws (logic_error ''mismatched dvec dimensions''))"
proof -
  let ?xs = "pairwise_elts vecs"
  let ?E = "logic_error ''mismatched dvec dimensions''"
  define key where "key p = theta binary64 (fst p) (snd p)" for p :: "double dvec \<times> double dvec"
  define good where "good p \<longleftrightarrow> length (fst p) = length (snd p)"
    for p :: "double dvec \<times> double dvec"
  define lt where "lt a b = (case a of Inl _ \<Rightarrow> False | Inr x \<Rightarrow>
                              (case b of Inl _ \<Rightarrow> False | Inr y \<Rightarrow> less64 x y))"
    for a b :: "error + double"
  have "length vecs * (length vecs - 1) \<le> 6 * 5"
    using six by (intro mult_le_mono) simp_all
  then have small: "length ?xs \<le> 16"
    by (simp add: length_pairwise_elts)
  have cmp: "theta_less binary64 p q = Inr (lt (key p) (key q))"
    if gp: "good p" and gq: "good q" for p q
  proof -
    obtain tp tq where "theta binary64 (fst p) (snd p) = Inr tp"
      "theta binary64 (fst q) (snd q) = Inr tq"
      using gp gq theta_match [of "fst p" "snd p" binary64]
        theta_match [of "fst q" "snd q" binary64]
      unfolding good_def by blast
    then show ?thesis by (simp add: theta_less_def key_def lt_def) (simp add: binary64_def)
  qed
  have bad: "theta_less binary64 p q = Inl ?E" if b: "\<not> good p \<or> \<not> good q" for p q
  proof (cases "good p")
    case False
    then show ?thesis by (simp add: theta_less_def good_def theta_mismatch)
  next
    case True
    then have "\<not> good q" using b by simp
    then have q: "theta binary64 (fst q) (snd q) = Inl ?E"
      by (simp add: good_def theta_mismatch)
    obtain tp where "theta binary64 (fst p) (snd p) = Inr tp"
      using True theta_match [of "fst p" "snd p" binary64] unfolding good_def by blast
    then show ?thesis using q by (simp add: theta_less_def)
  qed
  have irrefl: "\<not> lt k k" for k
    by (cases k) (simp_all add: lt_def less64_irrefl)
  have trans: "lt a c" if "lt a b" "lt b c" for a b c
    using that less64_trans by (cases a; cases b; cases c) (auto simp: lt_def)
  have "(\<exists>ys. std_sort (theta_less binary64) ?xs = Returns ys \<and> mset ys = mset ?xs \<and>
               (\<forall>k. filter (\<lambda>x. key x = k) ys = filter (\<lambda>x. key x = k) ?xs))
        \<or> (std_sort (theta_less binary64) ?xs = Throws ?E \<and> (\<exists>x\<in>set ?xs. \<not> good x))"
    using small irrefl trans cmp bad
    by (rule std_sort_small_stable [where lt = lt and key = key and good = good])
  then show ?thesis
  proof
    assume "\<exists>ys. std_sort (theta_less binary64) ?xs = Returns ys \<and> mset ys = mset ?xs \<and>
               (\<forall>k. filter (\<lambda>x. key x = k) ys = filter (\<lambda>x. key x = k) ?xs)"
    then obtain ys where ys: "std_sort (theta_less binary64) ?xs = Returns ys" "mset ys = mset ?xs"
      "\<And>k. filter (\<lambda>x. key x = k) ys = filter (\<lambda>x. key x = k) ?xs"
      by blast
    have "keeps_tie_order binary64 ?xs ys"
      unfolding keeps_tie_order_def using ys(3) by (simp add: key_def)
    then show ?thesis using ys(1,2) by (simp add: theta_sort_def)
  next
    assume "std_sort (theta_less binary64) ?xs = Throws ?E \<and> (\<exists>x\<in>set ?xs. \<not> good x)"
    then obtain p where t: "std_sort (theta_less binary64) ?xs = Throws ?E"
      and p: "p \<in> set ?xs" "length (fst p) \<noteq> length (snd p)"
      unfolding good_def by blast
    have "fst p \<in> set vecs" "snd p \<in> set vecs"
      using set_pairwise_elts [OF p(1)] by simp_all
    then have "\<not> same_dimension vecs"
      using p(2) unfolding same_dimension_def by blast
    then show ?thesis using t by (simp add: theta_sort_def)
  qed
qed

theorem theta_sort_keeps_ties_up_to_six_vectors_witness:
  "length [[Num 1], [Num 2], [Num 3 :: double]] \<le> 6
   \<and> same_dimension [[Num 1], [Num 2], [Num 3 :: double]]
   \<and> theta_sort binary64 std_sort [[Num 1], [Num 2], [Num 3]] =
       Returns [([Num 1], [Num 2]), ([Num 1], [Num 3]), ([Num 2], [Num 3])]"
proof -
  let ?V = "[[Num 1], [Num 2], [Num 3 :: double]]"
  let ?P = "[([Num 1], [Num 2]), ([Num 1], [Num 3]), ([Num 2], [Num 3 :: double])]"
  let ?T = "\<lambda>p. theta binary64 (fst p) (snd p) = Inr (Num 0)"
  have dim: "same_dimension ?V" by (simp add: same_dimension_def)
  have P: "pairwise_elts ?V = ?P" by (simp add: pairwise_elts_def)
  have "length ?V \<le> 6" by simp
  from theta_sort_keeps_ties_up_to_six_vectors [OF this] dim
  obtain ys where ys: "theta_sort binary64 std_sort ?V = Returns ys" "mset ys = mset ?P"
    "keeps_tie_order binary64 ?P ys"
    unfolding P by blast
  have all: "\<forall>p\<in>set ?P. ?T p" by (simp add: theta64_collinear)
  have "set_mset (mset ys) = set_mset (mset ?P)" using ys(2) by simp
  then have "set ys = set ?P" by (simp only: set_mset_mset)
  then have "\<forall>p\<in>set ys. ?T p" using all by blast
  then have "filter ?T ys = ys" by (simp only: filter_True)
  moreover have "filter ?T ?P = ?P" using all by (simp only: filter_True)
  moreover have "filter ?T ys = filter ?T ?P"
    using ys(3) unfolding keeps_tie_order_def by (rule spec)
  ultimately have "ys = ?P" by simp
  then show ?thesis using ys(1) dim by simp
qed

lemma std_sort_ties_21:
  assumes tie: "\<And>x y. T x \<Longrightarrow> T y \<Longrightarrow> cmp x y = Inr False"
    and T: "list_all T [x0, x1, x2, x3, x4, x5, x6, x7, x8, x9, x10,
                        x11, x12, x13, x14, x15, x16, x17, x18, x19, x20]"
  shows "std_sort cmp [x0, x1, x2, x3, x4, x5, x6, x7, x8, x9, x10,
                       x11, x12, x13, x14, x15, x16, x17, x18, x19, x20] =
         Returns [x10, x20, x19, x18, x17, x16, x15, x14, x13, x12, x11,
                  x0, x9, x8, x7, x6, x5, x4, x3, x2, x1]"
proof -
  have t: "T x0" "T x1" "T x2" "T x3" "T x4" "T x5" "T x6" "T x7" "T x8" "T x9" "T x10"
    "T x11" "T x12" "T x13" "T x14" "T x15" "T x16" "T x17" "T x18" "T x19" "T x20"
    using T by simp_all
  show ?thesis
    by (simp add: std_sort_def std_lg.simps std_introsort_loop.simps
        std_unguarded_partition_pivot_def std_move_median_to_first_def iter_swap_def tie t
        std_unguarded_partition.simps std_partition_up.simps
        std_partition_down.simps std_final_insertion_sort_def std_insertion_sort_def
        std_insertion_sort_loop.simps std_unguarded_linear_insert_def
        std_unguarded_linear_insert_loop.simps std_unguarded_insertion_sort.simps)
qed

lemma theta_less_tied:
  "theta binary64 (fst p) (snd p) = Inr (Num 0) \<Longrightarrow>
   theta binary64 (fst q) (snd q) = Inr (Num 0) \<Longrightarrow>
   theta_less binary64 p q = Inr False"
  by (simp add: theta_less_def) (simp add: binary64_def)

lemma theta_sort_collinear:
  "theta_sort binary64 std_sort [[Num 1], [Num 2], [Num 3], [Num 4], [Num 5], [Num 6], [Num 7]] =
   Returns
     [([Num 2], [Num 7]),
      ([Num 6], [Num 7]),
      ([Num 5], [Num 7]),
      ([Num 5], [Num 6]),
      ([Num 4], [Num 7]),
      ([Num 4], [Num 6]),
      ([Num 4], [Num 5]),
      ([Num 3], [Num 7]),
      ([Num 3], [Num 6]),
      ([Num 3], [Num 5]),
      ([Num 3], [Num 4]),
      ([Num 1], [Num 2]),
      ([Num 2], [Num 6]),
      ([Num 2], [Num 5]),
      ([Num 2], [Num 4]),
      ([Num 2], [Num 3]),
      ([Num 1], [Num 7]),
      ([Num 1], [Num 6]),
      ([Num 1], [Num 5]),
      ([Num 1], [Num 4]),
      ([Num 1], [Num 3])]"
  unfolding theta_sort_def pairwise_elts_collinear
  by (rule std_sort_ties_21 [where T = "\<lambda>p. theta binary64 (fst p) (snd p) = Inr (Num 0)"])
    (simp_all add: theta_less_tied theta64_collinear)

text \<open>
  Claim C2, as stated for every input, does not hold. The seven vectors \<open>[1]\<close>, \<open>[2]\<close>, ...,
  \<open>[7]\<close> have 21 pairs, all of angle \<^verbatim>\<open>acos(1.0)\<close>, which is \<^verbatim>\<open>0.0\<close>. A sequence of more than 16
  elements is partitioned first: the element in the middle and the first element are exchanged,
  then the second with the last, the third with the last but one, and so on, for no element is
  less than the pivot and the pivot is less than none; the insertion sort that follows moves
  nothing. \<^verbatim>\<open>theta_sort\<close> returns the 21 pairs in that order, not in their enumeration order.
\<close>

theorem theta_sort_reorders_ties:
  "pairwise_elts [[Num 1], [Num 2], [Num 3], [Num 4], [Num 5], [Num 6], [Num 7]] =
      [([Num 1], [Num 2]), ([Num 1], [Num 3]), ([Num 1], [Num 4]), ([Num 1], [Num 5]),
       ([Num 1], [Num 6]), ([Num 1], [Num 7]), ([Num 2], [Num 3]), ([Num 2], [Num 4]),
       ([Num 2], [Num 5]), ([Num 2], [Num 6]), ([Num 2], [Num 7]), ([Num 3], [Num 4]),
       ([Num 3], [Num 5]), ([Num 3], [Num 6]), ([Num 3], [Num 7]), ([Num 4], [Num 5]),
       ([Num 4], [Num 6]), ([Num 4], [Num 7]), ([Num 5], [Num 6]), ([Num 5], [Num 7]),
       ([Num 6], [Num 7])]
   \<and> list_all (\<lambda>p. theta binary64 (fst p) (snd p) = Inr (Num 0))
        (pairwise_elts [[Num 1], [Num 2], [Num 3], [Num 4], [Num 5], [Num 6], [Num 7]])
   \<and> theta_sort binary64 std_sort [[Num 1], [Num 2], [Num 3], [Num 4], [Num 5], [Num 6], [Num 7]] =
       Returns
         [([Num 2], [Num 7]), ([Num 6], [Num 7]), ([Num 5], [Num 7]), ([Num 5], [Num 6]),
       ([Num 4], [Num 7]), ([Num 4], [Num 6]), ([Num 4], [Num 5]), ([Num 3], [Num 7]),
       ([Num 3], [Num 6]), ([Num 3], [Num 5]), ([Num 3], [Num 4]), ([Num 1], [Num 2]),
       ([Num 2], [Num 6]), ([Num 2], [Num 5]), ([Num 2], [Num 4]), ([Num 2], [Num 3]),
       ([Num 1], [Num 7]), ([Num 1], [Num 6]), ([Num 1], [Num 5]), ([Num 1], [Num 4]),
       ([Num 1], [Num 3])]
   \<and> \<not> keeps_tie_order binary64
         (pairwise_elts [[Num 1], [Num 2], [Num 3], [Num 4], [Num 5], [Num 6], [Num 7]])
         [([Num 2], [Num 7]), ([Num 6], [Num 7]), ([Num 5], [Num 7]), ([Num 5], [Num 6]),
       ([Num 4], [Num 7]), ([Num 4], [Num 6]), ([Num 4], [Num 5]), ([Num 3], [Num 7]),
       ([Num 3], [Num 6]), ([Num 3], [Num 5]), ([Num 3], [Num 4]), ([Num 1], [Num 2]),
       ([Num 2], [Num 6]), ([Num 2], [Num 5]), ([Num 2], [Num 4]), ([Num 2], [Num 3]),
       ([Num 1], [Num 7]), ([Num 1], [Num 6]), ([Num 1], [Num 5]), ([Num 1], [Num 4]),
       ([Num 1], [Num 3])]"
proof -
  let ?T = "\<lambda>p. theta binary64 (fst p) (snd p) = Inr (Num 0)"
  let ?P = "[([Num 1], [Num 2]), ([Num 1], [Num 3]), ([Num 1], [Num 4]), ([Num 1], [Num 5]),
       ([Num 1], [Num 6]), ([Num 1], [Num 7]), ([Num 2], [Num 3]), ([Num 2], [Num 4]),
       ([Num 2], [Num 5]), ([Num 2], [Num 6]), ([Num 2], [Num 7]), ([Num 3], [Num 4]),
       ([Num 3], [Num 5]), ([Num 3], [Num 6]), ([Num 3], [Num 7]), ([Num 4], [Num 5]),
       ([Num 4], [Num 6]), ([Num 4], [Num 7]), ([Num 5], [Num 6]), ([Num 5], [Num 7]),
       ([Num 6], [Num 7])]"
  let ?Q = "[([Num 2], [Num 7]), ([Num 6], [Num 7]), ([Num 5], [Num 7]), ([Num 5], [Num 6]),
       ([Num 4], [Num 7]), ([Num 4], [Num 6]), ([Num 4], [Num 5]), ([Num 3], [Num 7]),
       ([Num 3], [Num 6]), ([Num 3], [Num 5]), ([Num 3], [Num 4]), ([Num 1], [Num 2]),
       ([Num 2], [Num 6]), ([Num 2], [Num 5]), ([Num 2], [Num 4]), ([Num 2], [Num 3]),
       ([Num 1], [Num 7]), ([Num 1], [Num 6]), ([Num 1], [Num 5]), ([Num 1], [Num 4]),
       ([Num 1], [Num 3])]"
  have all: "list_all ?T ?P" by (simp add: theta64_collinear)
  have "\<not> keeps_tie_order binary64 ?P ?Q"
  proof
    assume "keeps_tie_order binary64 ?P ?Q"
    then have "filter ?T ?Q = filter ?T ?P"
      unfolding keeps_tie_order_def by (rule spec)
    then show False by (simp add: theta64_collinear)
  qed
  then show ?thesis
    using all by (simp only: pairwise_elts_collinear theta_sort_collinear) simp
qed

section \<open>Textual representation: proofs\<close>

lemma significand6_eq:
  fixes n :: nat
  assumes "10 ^ n \<le> a" and "a < 10 * 10 ^ n" and "rne (a * 10 ^ 5 / 10 ^ n) = int m"
    and "m \<noteq> 1000000"
  shows "significand6 a = (m, int n)"
proof -
  have pos: "0 < a" using assms(1) by (rule less_le_trans [rotated]) simp
  have "10 powr real_of_int (int n) \<le> a \<and> a < 10 powr real_of_int (int n + 1)"
    using assms(1,2) by (simp add: powr_realpow powr_add)
  then have X: "\<lfloor>log 10 a\<rfloor> = int n" using pos by (simp add: floor_log_eq_powr_iff)
  have e: "10 powr (of_int (int n) - 5) = (10::real) ^ n / 10 ^ 5"
    by (simp add: powr_diff powr_realpow)
  have "a / (10 ^ n / 10 ^ 5) = a * 10 ^ 5 / 10 ^ n" by simp
  then have "a / 10 powr (of_int (int n) - 5) = a * 10 ^ 5 / 10 ^ n"
    by (simp only: e)
  then show ?thesis
    unfolding significand6_def X Let_def using assms(3,4) by simp
qed

lemma put64_collision: "put64 (Num 1234567) = put64 (Num 1234568)"
proof -
  have a: "rne (1234567 * 10 ^ 5 / 10 ^ 6) = int 123457"
    by (rule rne_unique) simp_all
  have b: "rne (1234568 * 10 ^ 5 / 10 ^ 6) = int 123457"
    by (rule rne_unique) simp_all
  have "significand6 1234567 = (123457, 6)"
    using significand6_eq [of 6 1234567 123457, OF _ _ a] by simp
  moreover have "significand6 1234568 = (123457, 6)"
    using significand6_eq [of 6 1234568 123457, OF _ _ b] by simp
  ultimately show ?thesis by simp
qed

lemma digits_123457: "digits 123457 = ''123457''"
  by (simp add: digits.simps)

lemma put64_1234567: "put64 (Num 1234567) = ''1.23457e+06''"
proof -
  have a: "rne (1234567 * 10 ^ 5 / 10 ^ 6) = int 123457"
    by (rule rne_unique) simp_all
  have "significand6 1234567 = (123457, 6)"
    using significand6_eq [of 6 1234567 123457, OF _ _ a] by simp
  then show ?thesis
    by (simp add: layout_def digits_123457 fraction_def strip_zeros_def exponent_field_def
        digits.simps [of 6])
qed

lemma strip_punct_append: "strip_punct (s @ t) = strip_punct s @ strip_punct t"
  by (simp add: strip_punct_def)

lemma strip_punct_clean:
  "\<forall>c\<in>set s. c \<notin> {CHR ''['', CHR '']'', CHR '',''} \<Longrightarrow> strip_punct s = s"
  unfolding strip_punct_def by (rule filter_True) simp

lemma read_doubles_Nil: "read_doubles get [] = []"
  by (subst read_doubles.simps) (simp add: extract_double_def)

lemma read_doubles_space: "read_doubles get (CHR '' '' # s) = read_doubles get s"
proof -
  have "extract_double get (CHR '' '' # s) = extract_double get s"
    by (simp add: extract_double_def isspace_def)
  then show ?thesis
    by (subst read_doubles.simps, subst (2) read_doubles.simps) simp
qed

lemma read_doubles_put:
  assumes "reads_back get put x" and "rest = [] \<or> hd rest = CHR '' ''"
  shows "read_doubles get (put x @ rest) = x # read_doubles get rest"
proof -
  from assms(1) have ne: "put x \<noteq> []" and sp: "\<not> isspace (hd (put x))"
    and rd: "get (put x @ rest) = Some (x, length (put x) - 1)"
    using assms(2) unfolding reads_back_def by blast+
  have "dropWhile isspace (put x @ rest) = put x @ rest"
    using ne sp by (cases "put x") simp_all
  moreover have "Suc (length (put x) - 1) = length (put x)"
    using ne by (cases "put x") simp_all
  ultimately have "extract_double get (put x @ rest) = Some (x, rest)"
    using ne rd by (simp add: extract_double_def)
  then show ?thesis by (subst read_doubles.simps) simp
qed

lemma reparse_loop:
  assumes "\<forall>x\<in>set v. reads_back get put x" and "v \<noteq> []"
  shows "read_doubles get (strip_punct (render_loop put v)) = v"
  using assms
proof (induction put v rule: render_loop.induct)
  case (1 put)
  then show ?case by simp
next
  case (2 put x)
  then have rb: "reads_back get put x" by simp
  then have "strip_punct (put x) = put x"
    unfolding reads_back_def by (intro strip_punct_clean) blast
  then have "strip_punct (render_loop put [x]) = put x @ []"
    by (simp add: strip_punct_append) (simp add: strip_punct_def)
  then show ?case
    using read_doubles_put [OF rb, of "[]"] by (simp add: read_doubles_Nil)
next
  case (3 put x y it)
  then have rb: "reads_back get put x" by simp
  then have "strip_punct (put x) = put x"
    unfolding reads_back_def by (intro strip_punct_clean) blast
  then have stripped: "strip_punct (render_loop put (x # y # it)) =
      put x @ CHR '' '' # strip_punct (render_loop put (y # it))"
    by (simp add: strip_punct_append) (simp add: strip_punct_def)
  have "read_doubles get (strip_punct (render_loop put (y # it))) = y # it"
    using "3.IH" "3.prems" by simp
  then show ?case
    unfolding stripped using read_doubles_put [OF rb, of "CHR '' '' # strip_punct (render_loop put (y # it))"]
    by (simp add: read_doubles_space)
qed

text \<open>
  Claim C9, amended. Rendering a vector and reading the text back, commas and brackets ignored,
  gives the vector again when every element is read back from its text. (The empty vector
  renders as \<^verbatim>\<open>[]\<close> and reads back as the empty vector.)
\<close>

theorem render_reparse_round_trip:
  assumes "\<forall>x\<in>set v. reads_back get put x"
  shows "reparse get put v = v"
proof (cases "v = []")
  case True
  then show ?thesis
    by (simp add: reparse_def render_def strip_punct_def read_doubles_Nil)
next
  case False
  have "strip_punct (render put v) = strip_punct (render_loop put v)"
    using False by (simp add: render_def strip_punct_def)
  then show ?thesis
    using reparse_loop [OF assms False] by (simp add: reparse_def)
qed

lemma put64_small:
  "put64 (Num 1) = ''1''" "put64 (Num 2) = ''2''" "put64 (Num 3) = ''3''"
proof -
  have "rne (1 * 10 ^ 5 / 10 ^ 0) = int 100000" by (rule rne_unique) simp_all
  from significand6_eq [of 0 1 100000, OF _ _ this]
  have "significand6 1 = (100000, 0)" by simp
  then show "put64 (Num 1) = ''1''"
    by (simp add: layout_def fraction_def strip_zeros_def digits.simps)
  have "rne (2 * 10 ^ 5 / 10 ^ 0) = int 200000" by (rule rne_unique) simp_all
  from significand6_eq [of 0 2 200000, OF _ _ this]
  have "significand6 2 = (200000, 0)" by simp
  then show "put64 (Num 2) = ''2''"
    by (simp add: layout_def fraction_def strip_zeros_def digits.simps)
  have "rne (3 * 10 ^ 5 / 10 ^ 0) = int 300000" by (rule rne_unique) simp_all
  from significand6_eq [of 0 3 300000, OF _ _ this]
  have "significand6 3 = (300000, 0)" by simp
  then show "put64 (Num 3) = ''3''"
    by (simp add: layout_def fraction_def strip_zeros_def digits.simps)
qed

lemma get_unsigned64_digit:
  assumes "rest = [] \<or> hd rest = CHR '' ''"
  shows "get_unsigned64 (CHR ''1'' # rest) = Some (Num 1, 0)"
    and "get_unsigned64 (CHR ''2'' # rest) = Some (Num 2, 0)"
    and "get_unsigned64 (CHR ''3'' # rest) = Some (Num 3, 0)"
proof -
  have "takeWhile is_digit rest = []"
    using assms by (cases rest) (auto simp: is_digit_def)
  then show "get_unsigned64 (CHR ''1'' # rest) = Some (Num 1, 0)"
    and "get_unsigned64 (CHR ''2'' # rest) = Some (Num 2, 0)"
    and "get_unsigned64 (CHR ''3'' # rest) = Some (Num 3, 0)"
    by (simp_all add: get_unsigned64_def get_unsigned_def is_digit_def round64_1 round64_2
        round64_3)
qed

lemma reads_back_small:
  "reads_back get_unsigned64 put64 (Num 1)"
  "reads_back get_unsigned64 put64 (Num 2)"
  "reads_back get_unsigned64 put64 (Num 3)"
  unfolding reads_back_def put64_small
  by (simp_all add: isspace_def get_unsigned64_digit)

theorem render_reparse_round_trip_witness:
  "render put64 [Num 1, Num 2, Num 3] = ''[1, 2, 3]''
   \<and> reparse get_unsigned64 put64 [Num 1, Num 2, Num 3] = [Num 1, Num 2, Num 3]"
proof -
  have "\<forall>x\<in>set [Num 1, Num 2, Num 3]. reads_back get_unsigned64 put64 x"
    by (simp add: reads_back_small)
  from render_reparse_round_trip [OF this] show ?thesis
    by (simp add: render_def put64_small del: put64.simps)
qed

text \<open>
  Claim C9, as stated for every vector, does not hold: a double is printed with six
  significant digits. \<open>1234567\<close> and \<open>1234568\<close> both print as \<^verbatim>\<open>1.23457e+06\<close>, so the vectors
  \<open>[1234567]\<close> and \<open>[1234568]\<close> have the same text, and whatever the reader makes of that text,
  it is not both of them.
\<close>

theorem render_reparse_loses_digits:
  "render put64 [Num 1234567] = ''[1.23457e+06]''
   \<and> render put64 [Num 1234568] = ''[1.23457e+06]''
   \<and> \<not> (\<exists>get. reparse get put64 [Num 1234567] = [Num 1234567] \<and>
                reparse get put64 [Num 1234568] = [Num 1234568])"
proof (intro conjI notI)
  show a: "render put64 [Num 1234567] = ''[1.23457e+06]''"
    by (simp add: render_def put64_1234567 del: put64.simps)
  show b: "render put64 [Num 1234568] = ''[1.23457e+06]''"
    using put64_collision by (simp add: render_def put64_1234567 del: put64.simps)
  assume "\<exists>get. reparse get put64 [Num 1234567] = [Num 1234567] \<and>
                reparse get put64 [Num 1234568] = [Num 1234568]"
  then obtain get where "read_doubles get (strip_punct ''[1.23457e+06]'') = [Num 1234567]"
    and "read_doubles get (strip_punct ''[1.23457e+06]'') = [Num 1234568]"
    unfolding reparse_def a b by blast
  then show False by simp
qed

end
